theory Spec2Isabelle
  imports Complex_Main "HOL-Library.Word" "HOL-Library.AList" "HOL-Library.Log_Nat"
begin

section \<open>Python values used by the repository\<close>

text \<open>
  The texts that are split and stored are modelled as \<open>string\<close>: lists of characters,
  each a code point below 256. The argument of the embedding function ranges over all
  Python strings (lists of code points, see below), since encoding fails on some of them.
  Exceptions are values of the type \<open>error\<close>; a function that can raise returns
  \<open>error + 'a\<close>, \<open>Inl\<close> carrying the exception.
\<close>

datatype error =
    ValueError string
  | OSError string
  | KeyError string
  | IndexError
  | UnicodeEncodeError
  | ChromaError string

text \<open>\<open>range(start, stop, step)\<close>: a zero step raises \<open>ValueError\<close>.\<close>

definition py_range :: "int \<Rightarrow> int \<Rightarrow> int \<Rightarrow> error + int list" where
  "py_range start stop step =
     (if step = 0 then Inl (ValueError ''range() arg 3 must not be zero'')
      else if 0 < step then
        Inr (map (\<lambda>k. start + int k * step) [0..<nat ((stop - start + step - 1) div step)])
      else
        Inr (map (\<lambda>k. start + int k * step) [0..<nat ((start - stop - step - 1) div (- step))]))"

text \<open>\<open>xs[i:j]\<close>: negative bounds count from the end, out-of-range bounds are clamped.\<close>

definition slice_bound :: "int \<Rightarrow> int \<Rightarrow> int" where
  "slice_bound n k = (if k < 0 then max (k + n) 0 else min k n)"

definition py_slice :: "'a list \<Rightarrow> int \<Rightarrow> int \<Rightarrow> 'a list" where
  "py_slice xs i j =
     (let n = int (length xs); a = slice_bound n i; b = slice_bound n j
      in take (nat (b - a)) (drop (nat a) xs))"

text \<open>\<open>s.split(sep)\<close> for a one-character separator, and \<open>"\n".join(lines)\<close>.\<close>

fun split_on :: "char \<Rightarrow> string \<Rightarrow> string list" where
  "split_on sep [] = [[]]"
| "split_on sep (c # cs) =
     (if c = sep then [] # split_on sep cs
      else (case split_on sep cs of
              [] \<Rightarrow> [[c]]
            | l # ls \<Rightarrow> (c # l) # ls))"

definition split_lines :: "string \<Rightarrow> string list" where
  "split_lines text = split_on (CHR 0x0A) text"

fun join_lines :: "string list \<Rightarrow> string" where
  "join_lines [] = []"
| "join_lines [l] = l"
| "join_lines (l # ls) = l @ CHR 0x0A # join_lines ls"

text \<open>
  \<open>str.isspace\<close> on the code points below 256, and \<open>str.strip()\<close> with no argument.
\<close>

definition py_isspace :: "char \<Rightarrow> bool" where
  "py_isspace c =
     (let n = (of_char c :: nat)
      in (9 \<le> n \<and> n \<le> 13) \<or> (28 \<le> n \<and> n \<le> 32) \<or> n = 133 \<or> n = 160)"

definition strip :: "string \<Rightarrow> string" where
  "strip s = rev (dropWhile py_isspace (rev (dropWhile py_isspace s)))"

section \<open>config.py\<close>

definition CHUNK_SIZE :: int where
  "CHUNK_SIZE = 40"

definition CHUNK_OVERLAP :: int where
  "CHUNK_OVERLAP = 10"

section \<open>chunking.py\<close>

text \<open>
  One pass of the loop body of \<open>chunk_code\<close>: the window starting at line \<open>i\<close> is
  joined and appended unless it is blank.
\<close>

definition chunk_step :: "int \<Rightarrow> string list \<Rightarrow> string list \<Rightarrow> int \<Rightarrow> string list" where
  "chunk_step window lines chunks i =
     (let chunk = join_lines (py_slice lines i (i + window))
      in if strip chunk \<noteq> [] then chunks @ [chunk] else chunks)"

text \<open>
  \<open>chunk_code\<close> with the two constants it imports from \<open>config\<close> as parameters, and
  \<open>chunk_code\<close> itself at the configured values.
\<close>

definition chunk_code_cfg :: "int \<Rightarrow> int \<Rightarrow> string \<Rightarrow> error + string list" where
  "chunk_code_cfg window overlap text =
     (let lines = split_lines text
      in case py_range 0 (int (length lines)) (window - overlap) of
           Inl e \<Rightarrow> Inl e
         | Inr idxs \<Rightarrow> Inr (foldl (chunk_step window lines) [] idxs))"

definition chunk_code :: "string \<Rightarrow> error + string list" where
  "chunk_code text = chunk_code_cfg CHUNK_SIZE CHUNK_OVERLAP text"

text \<open>
  The splitter as section 4.1 of the specification words it, to be compared with
  \<open>chunk_code\<close>: a start index advances by \<open>window - overlap\<close> lines per step, each
  step joins up to \<open>window\<close> lines from the start index and drops the window when it is
  blank, and the scan stops once the start index reaches the line count.
\<close>

function spec_scan :: "nat \<Rightarrow> nat \<Rightarrow> string list \<Rightarrow> nat \<Rightarrow> string list" where
  "spec_scan window overlap lines i =
     (if overlap < window \<and> i < length lines then
        (let chunk = join_lines (take window (drop i lines))
         in (if strip chunk = [] then [] else [chunk])
            @ spec_scan window overlap lines (i + (window - overlap)))
      else [])"
  by pat_completeness auto
termination
  by (relation "measure (\<lambda>(window, overlap, lines, i). length lines - i)") auto

declare spec_scan.simps [simp del]

definition spec_split :: "nat \<Rightarrow> nat \<Rightarrow> string \<Rightarrow> string list" where
  "spec_split window overlap text = spec_scan window overlap (split_lines text) 0"

text \<open>The window of \<open>CHUNK_SIZE\<close> lines that starts at line \<open>i\<close>, as one string.\<close>

definition window_text :: "string list \<Rightarrow> nat \<Rightarrow> string" where
  "window_text lines i = join_lines (take 40 (drop i lines))"

text \<open>Inputs on which the splitter is evaluated below.\<close>

definition short_text :: string where
  "short_text = join_lines (replicate 31 ''a'')"

definition hundred_lines :: string where
  "hundred_lines = join_lines (replicate 100 ''a'')"

definition gap_text :: string where
  "gap_text =
     join_lines (replicate 30 ''a'' @ replicate 10 '' '' @ replicate 30 [] @ replicate 30 ''b'')"

section \<open>The fallback embedding (embedding\_store.py, multi\_embedding\_store.py)\<close>

text \<open>
  \<open>hashlib.md5\<close> belongs to the Python library, not to the repository: the digest
  function is a parameter \<open>md5\<close> from the message bytes to the digest bytes.
  The argument of \<open>get_embedding\<close> is a Python \<open>str\<close> over all of Unicode: a list
  of code points (the numbers below \<open>0x110000\<close>). \<open>str.encode()\<close> is strict UTF-8:
  it raises \<open>UnicodeEncodeError\<close> when the string holds a surrogate code point
  (\<open>0xD800\<close> to \<open>0xDFFF\<close>), and encodes every other code point in one to four
  bytes. \<open>hexdigest()\<close> renders every digest byte as two lower-case hexadecimal
  digits.
\<close>

type_synonym byte = "8 word"

type_synonym py_str = "nat list"

definition is_surrogate :: "nat \<Rightarrow> bool" where
  "is_surrogate c = (55296 \<le> c \<and> c \<le> 57343)"

definition utf8_encode_cp :: "nat \<Rightarrow> byte list" where
  "utf8_encode_cp c =
     (if c < 128 then [of_nat c]
      else if c < 2048 then [of_nat (192 + c div 64), of_nat (128 + c mod 64)]
      else if c < 65536 then
        [of_nat (224 + c div 4096), of_nat (128 + (c div 64) mod 64), of_nat (128 + c mod 64)]
      else
        [of_nat (240 + c div 262144), of_nat (128 + (c div 4096) mod 64),
         of_nat (128 + (c div 64) mod 64), of_nat (128 + c mod 64)])"

definition utf8_encode :: "py_str \<Rightarrow> error + byte list" where
  "utf8_encode s =
     (if list_ex is_surrogate s then Inl UnicodeEncodeError
      else Inr (concat (map utf8_encode_cp s)))"

text \<open>A string of code points below 256, as the rest of the model has them, as a \<open>str\<close>.\<close>

definition codepoints :: "string \<Rightarrow> py_str" where
  "codepoints s = map of_char s"

definition hex_digit :: "nat \<Rightarrow> char" where
  "hex_digit n = ''0123456789abcdef'' ! n"

definition hex_byte :: "byte \<Rightarrow> string" where
  "hex_byte b = [hex_digit (unat b div 16), hex_digit (unat b mod 16)]"

definition hexdigest :: "byte list \<Rightarrow> string" where
  "hexdigest d = concat (map hex_byte d)"

text \<open>
  \<open>int(s, 16)\<close> on a string of hexadecimal digits; any other string, the empty one
  included, raises \<open>ValueError\<close> (signs, prefixes and blanks, which \<open>int\<close> also
  accepts, do not occur in a hex digest and are not modelled).
\<close>

definition hex_val :: "char \<Rightarrow> nat option" where
  "hex_val c =
     (let n = (of_char c :: nat)
      in if 48 \<le> n \<and> n \<le> 57 then Some (n - 48)
         else if 97 \<le> n \<and> n \<le> 102 then Some (n - 87)
         else if 65 \<le> n \<and> n \<le> 70 then Some (n - 55)
         else None)"

fun hex_digits_val :: "nat \<Rightarrow> string \<Rightarrow> nat option" where
  "hex_digits_val acc [] = Some acc"
| "hex_digits_val acc (c # cs) =
     (case hex_val c of
        None \<Rightarrow> None
      | Some v \<Rightarrow> hex_digits_val (16 * acc + v) cs)"

definition int_hex :: "string \<Rightarrow> error + int" where
  "int_hex s =
     (if s = [] then Inl (ValueError ''invalid literal for int() with base 16'')
      else case hex_digits_val 0 s of
             None \<Rightarrow> Inl (ValueError ''invalid literal for int() with base 16'')
           | Some v \<Rightarrow> Inr (int v))"

text \<open>
  A Python \<open>float\<close> is a binary64 number, modelled by the rational it denotes. Every
  operation yields the binary64 number nearest to the exact result, ties going to the
  even significand: \<open>binade q\<close> is the exponent \<open>e\<close> with \<open>2^e \<le> |q| < 2^(e+1)\<close>, the
  spacing of the binary64 numbers there is \<open>2^(e - 52)\<close>, and below \<open>2^(-1022)\<close> it is
  \<open>2^(-1074)\<close>. (Overflow is not modelled: no number beyond 255 arises here.)
\<close>

definition binade :: "rat \<Rightarrow> int" where
  "binade q =
     (case quotient_of \<bar>q\<bar> of
        (n, d) \<Rightarrow> (let e = bitlen n - bitlen d in if 2 powi e \<le> \<bar>q\<bar> then e else e - 1))"

definition round_half_even :: "rat \<Rightarrow> int" where
  "round_half_even x =
     (let f = \<lfloor>x\<rfloor>; r = x - of_int f
      in if r < 1 / 2 then f else if 1 / 2 < r then f + 1 else if even f then f else f + 1)"

definition round_double :: "rat \<Rightarrow> rat" where
  "round_double q =
     (if q = 0 then 0
      else (let ulp = 2 powi (max (binade q) (- 1022) - 52)
            in of_int (round_half_even (q / ulp)) * ulp))"

definition float_of_int :: "int \<Rightarrow> rat" where
  "float_of_int v = round_double (of_int v)"

definition float_sub :: "rat \<Rightarrow> rat \<Rightarrow> rat" where
  "float_sub x y = round_double (x - y)"

definition float_div :: "rat \<Rightarrow> rat \<Rightarrow> rat" where
  "float_div x y = round_double (x / y)"

text \<open>
  One pass of the loop of \<open>get_embedding\<close>: the pair of hex digits at index \<open>i\<close> is
  read as a number, normalised in float arithmetic and appended. An exception ends the
  loop.
\<close>

definition embed_step :: "string \<Rightarrow> error + rat list \<Rightarrow> int \<Rightarrow> error + rat list" where
  "embed_step text_hash acc i =
     (case acc of
        Inl e \<Rightarrow> Inl e
      | Inr embedding \<Rightarrow>
          (let hex_pair = py_slice text_hash i (i + 2)
           in case int_hex hex_pair of
                Inl e \<Rightarrow> Inl e
              | Inr v \<Rightarrow>
                  Inr (embedding @ [float_div (float_sub (float_of_int v) 127.5) 127.5])))"

definition get_embedding :: "(byte list \<Rightarrow> byte list) \<Rightarrow> py_str \<Rightarrow> error + rat list" where
  "get_embedding md5 text =
     (case utf8_encode text of
        Inl e \<Rightarrow> Inl e
      | Inr encoded \<Rightarrow>
          (let text_hash = hexdigest (md5 encoded)
           in case py_range 0 (int (length text_hash)) 2 of
                Inl e \<Rightarrow> Inl e
              | Inr idxs \<Rightarrow>
                  (case foldl (embed_step text_hash) (Inr []) idxs of
                     Inl e \<Rightarrow> Inl e
                   | Inr embedding \<Rightarrow>
                       (let target_size = 16
                        in if length embedding < target_size
                           then Inr (embedding @ replicate (target_size - length embedding) 0)
                           else Inr (take target_size embedding)))))"

text \<open>
  The value the loop assigns to a digest byte \<open>v\<close>: \<open>(v - 127.5) / 127.5\<close> in float
  arithmetic.
\<close>

definition byte_coord :: "byte \<Rightarrow> rat" where
  "byte_coord b = float_div (float_sub (float_of_int (int (unat b))) 127.5) 127.5"

text \<open>
  A stand-in digest function for evaluating the model (the first 16 message bytes), and
  a string with code points of one, two, three and four bytes.
\<close>

definition toy_digest :: "byte list \<Rightarrow> byte list" where
  "toy_digest bs = take 16 (bs @ replicate 16 0)"

definition mixed_str :: py_str where
  "mixed_str = [97, 233, 8364, 128512]"

section \<open>More of Python: \<open>str(int)\<close>, \<open>int(str)\<close>, prefixes, paths\<close>

definition digit_char :: "nat \<Rightarrow> char" where
  "digit_char n = ''0123456789'' ! n"

fun nat_digits :: "nat \<Rightarrow> string" where
  "nat_digits n =
     (if n < 10 then [digit_char n] else nat_digits (n div 10) @ [digit_char (n mod 10)])"

declare nat_digits.simps [simp del]

text \<open>\<open>str(i)\<close>, also what an f-string renders for an integer.\<close>

definition str_int :: "int \<Rightarrow> string" where
  "str_int i = (if i < 0 then CHR ''-'' # nat_digits (nat (- i)) else nat_digits (nat i))"

definition digit_val :: "char \<Rightarrow> nat option" where
  "digit_val c =
     (let n = (of_char c :: nat) in if 48 \<le> n \<and> n \<le> 57 then Some (n - 48) else None)"

fun digits_val :: "nat \<Rightarrow> string \<Rightarrow> nat option" where
  "digits_val acc [] = Some acc"
| "digits_val acc (c # cs) =
     (case digit_val c of
        None \<Rightarrow> None
      | Some v \<Rightarrow> digits_val (10 * acc + v) cs)"

text \<open>
  \<open>int(s)\<close>: surrounding blanks are ignored, one sign is allowed, at least one decimal
  digit must follow; anything else raises \<open>ValueError\<close>. (Underscores between digits,
  which \<open>int\<close> also accepts, cannot reach it here: its argument is a piece of a
  string split at underscores.)
\<close>

definition py_int :: "string \<Rightarrow> error + int" where
  "py_int s =
     (let t = strip s;
          neg = (t \<noteq> [] \<and> hd t = CHR ''-'');
          ds = (if t \<noteq> [] \<and> (hd t = CHR ''-'' \<or> hd t = CHR ''+'') then tl t else t)
      in if ds = [] then Inl (ValueError ''invalid literal for int() with base 10'')
         else case digits_val 0 ds of
                None \<Rightarrow> Inl (ValueError ''invalid literal for int() with base 10'')
              | Some v \<Rightarrow> Inr (if neg then - int v else int v))"

definition startswith :: "string \<Rightarrow> string \<Rightarrow> bool" where
  "startswith s p = (take (length p) s = p)"

definition endswith :: "string \<Rightarrow> string \<Rightarrow> bool" where
  "endswith s p = (length p \<le> length s \<and> drop (length s - length p) s = p)"

text \<open>\<open>os.path.join(a, b)\<close> with \<open>/\<close> as the separator.\<close>

definition path_join :: "string \<Rightarrow> string \<Rightarrow> string" where
  "path_join a b =
     (if startswith b ''/'' then b
      else if a = [] \<or> last a = CHR ''/'' then a @ b
      else a @ ''/'' @ b)"

section \<open>The file system and the vector database engine\<close>

text \<open>
  A stored document of a collection, with the metadata dictionary as an association
  list, and a collection as the list of its documents in insertion order.
\<close>

datatype meta_val = MInt int | MStr string

type_synonym metadata = "(string \<times> meta_val) list"

record document =
  doc_id :: string
  doc_text :: string
  doc_embedding :: "rat list"
  doc_meta :: metadata

type_synonym collection = "document list"

text \<open>
  A node of the file system is a plain file or a directory; a directory that holds a
  persistent database carries its collections by name. The file system maps the paths
  that exist to their nodes, as an association list so that a directory can be listed.
\<close>

datatype node = File | Dir "(string \<times> collection) list"

type_synonym filesystem = "(string \<times> node) list"

definition fs_exists :: "filesystem \<Rightarrow> string \<Rightarrow> bool" where
  "fs_exists fs p = (map_of fs p \<noteq> None)"

definition fs_isdir :: "filesystem \<Rightarrow> string \<Rightarrow> bool" where
  "fs_isdir fs p = (case map_of fs p of Some (Dir db) \<Rightarrow> True | _ \<Rightarrow> False)"

text \<open>The path itself and the prefixes of it that end before a separator.\<close>

definition ancestors :: "string \<Rightarrow> string list" where
  "ancestors p = map (\<lambda>k. take k p) (filter (\<lambda>k. p ! k = CHR ''/'') [1..<length p]) @ [p]"

text \<open>
  \<open>os.makedirs(p, exist_ok=True)\<close>: every missing directory on the way is created;
  a plain file on the way raises.
\<close>

definition makedirs_step :: "string \<Rightarrow> error + filesystem \<Rightarrow> error + filesystem" where
  "makedirs_step q r =
     (case r of
        Inl e \<Rightarrow> Inl e
      | Inr fs \<Rightarrow>
          (case map_of fs q of
             None \<Rightarrow> Inr (fs @ [(q, Dir [])])
           | Some File \<Rightarrow> Inl (OSError q)
           | Some (Dir db) \<Rightarrow> Inr fs))"

definition makedirs :: "filesystem \<Rightarrow> string \<Rightarrow> error + filesystem" where
  "makedirs fs p = fold makedirs_step (ancestors p) (Inr fs)"

text \<open>\<open>os.listdir(d)\<close>: the names of the entries directly below \<open>d\<close>.\<close>

definition basename :: "string \<Rightarrow> string" where
  "basename p = rev (takeWhile (\<lambda>c. c \<noteq> CHR ''/'') (rev p))"

definition listdir :: "filesystem \<Rightarrow> string \<Rightarrow> string list" where
  "listdir fs d =
     map basename (filter (\<lambda>p. basename p \<noteq> [] \<and> p \<noteq> d \<and> path_join d (basename p) = p)
                     (map fst fs))"

text \<open>
  A collection handle is the path of its database and the collection's name.
  \<open>read_collection\<close> resolves a handle; it yields nothing when the directory or the
  collection is gone.
\<close>

type_synonym handle = "string \<times> string"

definition read_collection :: "filesystem \<Rightarrow> handle \<Rightarrow> collection option" where
  "read_collection fs h =
     (case map_of fs (fst h) of
        Some (Dir db) \<Rightarrow> map_of db (snd h)
      | _ \<Rightarrow> None)"

definition write_collection :: "filesystem \<Rightarrow> handle \<Rightarrow> collection \<Rightarrow> filesystem" where
  "write_collection fs h c =
     (case map_of fs (fst h) of
        Some (Dir db) \<Rightarrow> AList.update (fst h) (Dir (AList.update (snd h) c db)) fs
      | _ \<Rightarrow> fs)"

text \<open>
  \<open>client.get_or_create_collection(name)\<close> for the client opened at \<open>path\<close>: an
  existing collection is kept as it is.
\<close>

definition get_or_create_collection :: "filesystem \<Rightarrow> string \<Rightarrow> string \<Rightarrow> filesystem" where
  "get_or_create_collection fs path name =
     (case read_collection fs (path, name) of
        None \<Rightarrow> write_collection fs (path, name) []
      | Some c \<Rightarrow> fs)"

text \<open>
  The collection operations of the database engine that the store calls.
  \<open>collection.get(where={key: v})\<close> yields the ids of the documents whose metadata has
  that entry; \<open>collection.delete(ids)\<close> removes the documents with these ids;
  \<open>collection.add\<close> rejects an empty batch, lists of unequal length and a repeated id
  in the batch, and otherwise appends the records whose id is not stored yet (a record
  with a stored id is skipped); \<open>collection.query\<close> yields the \<open>n\<close> stored documents
  nearest to the query vector by squared Euclidean distance, nearest first, with their
  distances.
\<close>

definition coll_get_where :: "string \<Rightarrow> meta_val \<Rightarrow> collection \<Rightarrow> string list" where
  "coll_get_where key v c = map doc_id (filter (\<lambda>d. map_of (doc_meta d) key = Some v) c)"

definition coll_delete :: "string list \<Rightarrow> collection \<Rightarrow> collection" where
  "coll_delete ids c = filter (\<lambda>d. doc_id d \<notin> set ids) c"

definition make_documents ::
  "string list \<Rightarrow> string list \<Rightarrow> rat list list \<Rightarrow> metadata list \<Rightarrow> document list" where
  "make_documents ids documents embeddings metadatas =
     map (\<lambda>(i, t, e, m). \<lparr>doc_id = i, doc_text = t, doc_embedding = e, doc_meta = m\<rparr>)
       (zip ids (zip documents (zip embeddings metadatas)))"

definition coll_add ::
  "string list \<Rightarrow> string list \<Rightarrow> rat list list \<Rightarrow> metadata list \<Rightarrow> collection
     \<Rightarrow> error + collection" where
  "coll_add ids documents embeddings metadatas c =
     (if ids = [] then Inl (ChromaError ''empty batch'')
      else if length documents \<noteq> length ids \<or> length embeddings \<noteq> length ids
              \<or> length metadatas \<noteq> length ids
        then Inl (ChromaError ''unequal lengths'')
      else if \<not> distinct ids then Inl (ChromaError ''duplicate ids'')
      else Inr (c @ filter (\<lambda>d. doc_id d \<notin> doc_id ` set c)
                      (make_documents ids documents embeddings metadatas)))"

definition sq_distance :: "rat list \<Rightarrow> rat list \<Rightarrow> rat" where
  "sq_distance u v = sum_list (map (\<lambda>(a, b). (a - b) * (a - b)) (zip u v))"

definition coll_query :: "rat list \<Rightarrow> nat \<Rightarrow> collection \<Rightarrow> (document \<times> rat) list" where
  "coll_query q n c =
     take n (sort_key snd (map (\<lambda>d. (d, sq_distance q (doc_embedding d))) c))"

text \<open>
  Which calls of the database engine raise in a run (a locked or damaged database):
  the source wraps them in \<open>try\<close>, so each can fail in the model.
\<close>

record faults =
  get_fails :: bool
  delete_fails :: bool
  add_fails :: bool

definition no_faults :: faults where
  "no_faults = \<lparr>get_fails = False, delete_fails = False, add_fails = False\<rparr>"

section \<open>multi\_embedding\_store.py: the store\<close>

text \<open>
  The state of a \<open>MultiCodebaseEmbeddingStore\<close> together with the file system it
  works on. A cached client is the path its database was opened at, a cached collection
  is a handle.
\<close>

record store =
  base_db_dir :: string
  clients :: "int \<rightharpoonup> string"
  collections :: "int \<rightharpoonup> handle"
  disk :: filesystem

definition new_store :: "string \<Rightarrow> filesystem \<Rightarrow> store" where
  "new_store base fs =
     \<lparr>base_db_dir = base, clients = Map.empty, collections = Map.empty, disk = fs\<rparr>"

definition get_collection_name :: "int \<Rightarrow> string" where
  "get_collection_name codebase_id = ''codebase_'' @ str_int codebase_id"

definition get_db_path :: "store \<Rightarrow> int \<Rightarrow> string" where
  "get_db_path st codebase_id =
     path_join (base_db_dir st) (''codebase_'' @ str_int codebase_id)"

definition get_client_and_collection :: "store \<Rightarrow> int \<Rightarrow> error + store" where
  "get_client_and_collection st codebase_id =
     (if clients st codebase_id = None then
        (let db_path = get_db_path st codebase_id
         in case makedirs (disk st) db_path of
              Inl e \<Rightarrow> Inl e
            | Inr fs \<Rightarrow>
                (let collection_name = get_collection_name codebase_id
                 in Inr (st\<lparr>clients := (clients st)(codebase_id \<mapsto> db_path),
                            collections :=
                              (collections st)(codebase_id \<mapsto> (db_path, collection_name)),
                            disk := get_or_create_collection fs db_path collection_name\<rparr>)))
      else if collections st codebase_id = None then Inl (KeyError (str_int codebase_id))
      else Inr st)"

text \<open>The list comprehension over \<open>get_embedding\<close>: the first exception ends it.\<close>

fun get_embeddings :: "(byte list \<Rightarrow> byte list) \<Rightarrow> string list \<Rightarrow> error + rat list list" where
  "get_embeddings md5 [] = Inr []"
| "get_embeddings md5 (doc # docs) =
     (case get_embedding md5 (codepoints doc) of
        Inl e \<Rightarrow> Inl e
      | Inr v \<Rightarrow> (case get_embeddings md5 docs of
                    Inl e \<Rightarrow> Inl e
                  | Inr vs \<Rightarrow> Inr (v # vs)))"

definition document_ids :: "int \<Rightarrow> nat \<Rightarrow> string list" where
  "document_ids codebase_id n =
     map (\<lambda>i. ''doc_'' @ str_int codebase_id @ ''_'' @ str_int (int i)) [0..<n]"

definition document_metadata :: "int \<Rightarrow> nat \<Rightarrow> metadata list option \<Rightarrow> metadata list" where
  "document_metadata codebase_id n metadata =
     (case metadata of
        None \<Rightarrow> map (\<lambda>i. [(''chunk_id'', MInt (int i)), (''codebase_id'', MInt codebase_id)])
                  [0..<n]
      | Some ms \<Rightarrow> map (AList.update ''codebase_id'' (MInt codebase_id)) ms)"

text \<open>
  The \<open>replace_existing\<close> block of \<open>add_documents\<close>: the ids tagged with the tenant
  are enumerated and deleted; an exception of either call is logged and swallowed, and
  the collection stays as it was.
\<close>

definition clear_existing :: "faults \<Rightarrow> int \<Rightarrow> collection \<Rightarrow> collection" where
  "clear_existing fl codebase_id c =
     (if get_fails fl then c
      else (let existing_ids = coll_get_where ''codebase_id'' (MInt codebase_id) c
            in if existing_ids \<noteq> [] then (if delete_fails fl then c else coll_delete existing_ids c)
               else c))"

text \<open>
  \<open>add_documents\<close> returns the exception it raised, if any, and the state it left.
\<close>

definition add_documents ::
  "(byte list \<Rightarrow> byte list) \<Rightarrow> faults \<Rightarrow> store \<Rightarrow> int \<Rightarrow> string list \<Rightarrow> metadata list option
     \<Rightarrow> bool \<Rightarrow> error option \<times> store" where
  "add_documents md5 fl st codebase_id documents metadata replace_existing =
     (if documents = [] then (None, st)
      else case get_client_and_collection st codebase_id of
        Inl e \<Rightarrow> (Some e, st)
      | Inr st1 \<Rightarrow>
          (case collections st1 codebase_id of
             None \<Rightarrow> (Some (KeyError (str_int codebase_id)), st1)
           | Some h \<Rightarrow>
               (let ids = document_ids codebase_id (length documents)
                in case get_embeddings md5 documents of
                     Inl e \<Rightarrow> (Some e, st1)
                   | Inr embeddings \<Rightarrow>
                       (let metadatas = document_metadata codebase_id (length documents) metadata
                        in case read_collection (disk st1) h of
                             None \<Rightarrow> (Some (ChromaError ''collection does not exist''), st1)
                           | Some c \<Rightarrow>
                               (let c1 = (if replace_existing
                                          then clear_existing fl codebase_id c else c);
                                    st2 = st1\<lparr>disk := write_collection (disk st1) h c1\<rparr>
                                in if add_fails fl
                                   then (Some (ChromaError ''add failed''), st2)
                                   else case coll_add ids documents embeddings metadatas c1 of
                                          Inl e \<Rightarrow> (Some e, st2)
                                        | Inr c2 \<Rightarrow>
                                            (None,
                                             st1\<lparr>disk := write_collection (disk st1) h c2\<rparr>))))))"

definition query_codebase ::
  "(byte list \<Rightarrow> byte list) \<Rightarrow> store \<Rightarrow> int \<Rightarrow> string \<Rightarrow> nat \<Rightarrow> error + (document \<times> rat) list" where
  "query_codebase md5 st codebase_id query n_results =
     (case collections st codebase_id of
        None \<Rightarrow> Inl (ValueError (''Codebase '' @ str_int codebase_id
                                    @ '' not found in embedding store''))
      | Some h \<Rightarrow>
          (case get_embedding md5 (codepoints query) of
             Inl e \<Rightarrow> Inl e
           | Inr query_embedding \<Rightarrow>
               (case read_collection (disk st) h of
                  None \<Rightarrow> Inl (ChromaError ''collection does not exist'')
                | Some c \<Rightarrow> Inr (coll_query query_embedding n_results c))))"

section \<open>multi\_embedding\_store.py: teardown and listing\<close>

text \<open>
  \<open>shutil.rmtree\<close> removes a path with everything below it; \<open>os.rename\<close> moves a path
  with everything below it.
\<close>

definition rmtree :: "filesystem \<Rightarrow> string \<Rightarrow> filesystem" where
  "rmtree fs path = filter (\<lambda>(p, n). p \<noteq> path \<and> \<not> startswith p (path @ ''/'')) fs"

definition rename :: "filesystem \<Rightarrow> string \<Rightarrow> string \<Rightarrow> filesystem" where
  "rename fs src dst =
     map (\<lambda>(p, n). if p = src then (dst, n)
                   else if startswith p (src @ ''/'') then (dst @ drop (length src) p, n)
                   else (p, n)) fs"

text \<open>
  What the operating system answers during one run of the reclaimer: whether the
  \<open>k\<close>-th call of \<open>shutil.rmtree\<close> (counted from 0, with or without the error handler)
  succeeds, whether \<open>os.rename\<close> succeeds, and the clock. A call of \<open>rmtree\<close> that
  fails leaves the directory in place. The run is recorded as the list of the calls made
  and their outcomes.
\<close>

record reclaim_env =
  rmtree_ok :: "nat \<Rightarrow> bool"
  rename_ok :: bool
  now :: int

datatype event = Rmtree bool | Rename string bool

definition max_retries :: nat where
  "max_retries = 3"

text \<open>
  The loop of \<open>_force_remove_directory\<close> from iteration \<open>attempt\<close> on, \<open>calls\<close>
  being the number of \<open>rmtree\<close> calls made so far.
\<close>

function force_remove_attempts ::
  "reclaim_env \<Rightarrow> string \<Rightarrow> nat \<Rightarrow> nat \<Rightarrow> filesystem \<Rightarrow> (error + filesystem) \<times> event list" where
  "force_remove_attempts env path attempt calls fs =
     (if max_retries \<le> attempt then (Inr fs, [])
      else if rmtree_ok env calls then (Inr (rmtree fs path), [Rmtree True])
      else if attempt < max_retries - 1 then
        (if rmtree_ok env (Suc calls) then (Inr (rmtree fs path), [Rmtree False, Rmtree True])
         else (let (r, evs) = force_remove_attempts env path (Suc attempt) (calls + 2) fs
               in (r, Rmtree False # Rmtree False # evs)))
      else
        (let backup_path = path @ ''_backup_'' @ str_int (now env)
         in if rename_ok env then
              (let (r, evs) = force_remove_attempts env path (Suc attempt) (Suc calls)
                                (rename fs path backup_path)
               in (r, Rmtree False # Rename backup_path True # evs))
            else (Inl (OSError path), [Rmtree False, Rename backup_path False])))"
  by pat_completeness auto
termination
  by (relation "measure (\<lambda>(env, path, attempt, calls, fs). max_retries - attempt)") auto

declare force_remove_attempts.simps [simp del]

definition force_remove_directory ::
  "reclaim_env \<Rightarrow> filesystem \<Rightarrow> string \<Rightarrow> (error + filesystem) \<times> event list" where
  "force_remove_directory env fs path = force_remove_attempts env path 0 0 fs"

definition delete_codebase :: "reclaim_env \<Rightarrow> store \<Rightarrow> int \<Rightarrow> error option \<times> store" where
  "delete_codebase env st codebase_id =
     (let st1 = st\<lparr>clients := (clients st)(codebase_id := None),
                    collections := (collections st)(codebase_id := None)\<rparr>;
          db_path = get_db_path st codebase_id
      in if fs_exists (disk st1) db_path then
           (case fst (force_remove_directory env (disk st1) db_path) of
              Inl e \<Rightarrow> (Some e, st1)
            | Inr fs \<Rightarrow> (None, st1\<lparr>disk := fs\<rparr>))
         else (None, st1))"

text \<open>
  One pass of the loop of \<open>list_codebases\<close>: \<open>int(item.split("_")[1])\<close> for a
  directory whose name starts with \<open>codebase_\<close>; a \<open>ValueError\<close> skips the item.
\<close>

definition list_step :: "store \<Rightarrow> string \<Rightarrow> error + int list \<Rightarrow> error + int list" where
  "list_step st item acc =
     (case acc of
        Inl e \<Rightarrow> Inl e
      | Inr codebase_ids \<Rightarrow>
          (if startswith item ''codebase_''
                \<and> fs_isdir (disk st) (path_join (base_db_dir st) item)
           then (case split_on (CHR ''_'') item of
                   a # b # rest \<Rightarrow>
                     (case py_int b of
                        Inl e \<Rightarrow> Inr codebase_ids
                      | Inr codebase_id \<Rightarrow> Inr (codebase_ids @ [codebase_id]))
                 | _ \<Rightarrow> Inl IndexError)
           else Inr codebase_ids))"

definition list_codebases :: "store \<Rightarrow> error + int list" where
  "list_codebases st =
     (if \<not> fs_exists (disk st) (base_db_dir st) then Inr []
      else if \<not> fs_isdir (disk st) (base_db_dir st) then Inl (OSError (base_db_dir st))
      else case fold (list_step st) (listdir (disk st) (base_db_dir st)) (Inr []) of
             Inl e \<Rightarrow> Inl e
           | Inr codebase_ids \<Rightarrow> Inr (sort codebase_ids))"

text \<open>Runs of the reclaimer used below: every removal fails, with and without a rename.\<close>

definition locked_env :: reclaim_env where
  "locked_env = \<lparr>rmtree_ok = (\<lambda>k. False), rename_ok = True, now = 1700000000\<rparr>"

definition stuck_env :: reclaim_env where
  "stuck_env = \<lparr>rmtree_ok = (\<lambda>k. False), rename_ok = False, now = 1700000000\<rparr>"

definition one_tenant_fs :: filesystem where
  "one_tenant_fs =
     [(''vector_db'', Dir []), (''vector_db/codebase_5'', Dir [(''codebase_5'', [])])]"

fun is_rmtree :: "event \<Rightarrow> bool" where
  "is_rmtree (Rmtree ok) = True"
| "is_rmtree (Rename backup_path ok) = False"

fun is_rename :: "event \<Rightarrow> bool" where
  "is_rename (Rmtree ok) = False"
| "is_rename (Rename backup_path ok) = True"

definition relocated_fs :: filesystem where
  "relocated_fs =
     [(''vector_db'', Dir []),
      (''vector_db/codebase_5_backup_1700000000'', Dir [(''codebase_5'', [])])]"

section \<open>repo\_loader.py, temp\_processor.py, codebase\_manager.py: ingest\<close>

text \<open>
  A file of a working tree as \<open>os.walk\<close> meets it: the directory it is in, its name,
  its path relative to the root of the tree, and what \<open>read_file\<close> returns for it (the
  empty string when it cannot be read).
\<close>

record tree_file =
  file_root :: string
  file_name :: string
  file_rel :: string
  file_text :: string

definition source_exts :: "string list" where
  "source_exts =
     [''.py'', ''.js'', ''.java'', ''.ts'', ''.cpp'', ''.go'', ''.ipynb'', ''.md'', ''.txt'',
      ''.rst'', ''.yaml'', ''.yml'', ''.json'', ''.xml'', ''.html'', ''.css'', ''.sql'', ''.sh'',
      ''.bat'', ''.r'', ''.scala'', ''.kt'', ''.swift'', ''.php'', ''.rb'', ''.cs'', ''.c'', ''.h'',
      ''.hpp'', ''.cc'', ''.cxx'']"

definition binary_exts :: "string list" where
  "binary_exts =
     [''.exe'', ''.dll'', ''.so'', ''.dylib'', ''.class'', ''.jar'', ''.war'', ''.zip'', ''.tar'',
      ''.gz'', ''.pdf'', ''.docx'', ''.xlsx'', ''.pptx'', ''.png'', ''.jpg'', ''.jpeg'', ''.gif'',
      ''.bmp'', ''.ico'', ''.svg'']"

definition skipped_dirs :: "string list" where
  "skipped_dirs =
     [''node_modules'', ''__pycache__'', ''target'', ''build'', ''dist'', ''bin'', ''obj'']"

definition skip_root :: "string \<Rightarrow> bool" where
  "skip_root dir =
     (list_ex (\<lambda>part. startswith part ''.'') (split_on (CHR ''/'') dir)
      \<or> list_ex (\<lambda>part. part \<in> set skipped_dirs) (split_on (CHR ''/'') dir))"

definition get_source_files :: "tree_file list \<Rightarrow> tree_file list" where
  "get_source_files tree =
     filter (\<lambda>f. \<not> skip_root (file_root f)
                 \<and> \<not> (startswith (file_name f) ''.''
                        \<or> list_ex (endswith (file_name f)) binary_exts)
                 \<and> list_ex (endswith (file_name f)) source_exts) tree"

text \<open>
  \<open>TempRepositoryProcessor.process_repository\<close> on the cloned tree, as far as the
  chunks go: \<open>n_items\<close> is the number of entries of the temporary directory. A file
  whose processing raises is skipped.
\<close>

definition temp_file_chunks :: "string list \<Rightarrow> tree_file \<Rightarrow> string list" where
  "temp_file_chunks chunks f =
     (let content = file_text f
      in if content \<noteq> [] then
           (case chunk_code content of
              Inl e \<Rightarrow> chunks
            | Inr file_chunks \<Rightarrow> chunks @ file_chunks)
         else chunks)"

definition temp_placeholder :: "string \<Rightarrow> nat \<Rightarrow> string" where
  "temp_placeholder name n_items =
     ''No processable source files found in repository '' @ name
       @ ''. Repository contains '' @ str_int (int n_items)
       @ '' items but no supported code files.''"

definition process_repository :: "string \<Rightarrow> tree_file list \<Rightarrow> nat \<Rightarrow> string list" where
  "process_repository name tree n_items =
     (let source_files = get_source_files tree;
          chunks = foldl temp_file_chunks [] source_files
      in if chunks = [] then [temp_placeholder name n_items] else chunks)"

text \<open>
  \<open>CodebaseManager._add_codebase_temp\<close> after the catalog has assigned the id: the
  chunks of the temporary run are stored, replacing what the tenant had.
\<close>

definition add_codebase_temp ::
  "(byte list \<Rightarrow> byte list) \<Rightarrow> faults \<Rightarrow> store \<Rightarrow> int \<Rightarrow> string \<Rightarrow> tree_file list \<Rightarrow> nat
     \<Rightarrow> error option \<times> store" where
  "add_codebase_temp md5 fl st codebase_id name tree n_items =
     add_documents md5 fl st codebase_id (process_repository name tree n_items) None True"

text \<open>
  \<open>CodebaseManager._process_codebase\<close>, the ingest of the persistent mode (the catalog
  update at its end is outside the store). One pass of its loop over the enumerated
  files appends the chunks of a file and their metadata.
\<close>

definition chunk_meta :: "string \<Rightarrow> nat \<Rightarrow> nat \<Rightarrow> nat \<Rightarrow> metadata" where
  "chunk_meta rel_path i j chunk_id =
     [(''file_path'', MStr rel_path), (''file_index'', MInt (int i)),
      (''chunk_index'', MInt (int j)), (''chunk_id'', MInt (int chunk_id))]"

definition process_file ::
  "string list \<times> metadata list \<Rightarrow> nat \<times> tree_file \<Rightarrow> string list \<times> metadata list" where
  "process_file acc x =
     (case acc of (all_chunks, chunk_metadata) \<Rightarrow>
      case x of (i, f) \<Rightarrow>
        (let content = file_text f
         in if strip content \<noteq> [] then
              (case chunk_code content of
                 Inl e \<Rightarrow> (all_chunks, chunk_metadata)
               | Inr chunks \<Rightarrow>
                   (all_chunks @ chunks,
                    chunk_metadata
                      @ map (\<lambda>j. chunk_meta (file_rel f) i j (length all_chunks + j))
                          [0..<length chunks]))
            else (all_chunks, chunk_metadata)))"

definition process_codebase ::
  "(byte list \<Rightarrow> byte list) \<Rightarrow> faults \<Rightarrow> store \<Rightarrow> int \<Rightarrow> tree_file list
     \<Rightarrow> error option \<times> store" where
  "process_codebase md5 fl st codebase_id tree =
     (let files = get_source_files tree
      in if files = [] then (None, st)
         else (case foldl process_file ([], []) (zip [0..<length files] files) of
                 (all_chunks, chunk_metadata) \<Rightarrow>
                   if all_chunks \<noteq> [] then
                     add_documents md5 fl st codebase_id all_chunks (Some chunk_metadata) True
                   else
                     add_documents md5 fl st codebase_id
                       [''No processable source files found in this repository.'']
                       (Some [[(''file_path'', MStr ''README''), (''file_index'', MInt 0),
                               (''chunk_index'', MInt 0), (''chunk_id'', MInt 0)]])
                       True))"

text \<open>
  \<open>CodebaseManager._safe_process_codebase\<close>, the ingest of a refresh in the persistent
  mode. An exception of the splitter is not caught here.
\<close>

definition safe_file_chunks :: "error + string list \<Rightarrow> tree_file \<Rightarrow> error + string list" where
  "safe_file_chunks acc f =
     (case acc of
        Inl e \<Rightarrow> Inl e
      | Inr docs \<Rightarrow>
          (let content = file_text f
           in if content \<noteq> [] then
                (case chunk_code content of
                   Inl e \<Rightarrow> Inl e
                 | Inr chunks \<Rightarrow> Inr (docs @ chunks))
              else Inr docs))"

definition safe_process_codebase ::
  "(byte list \<Rightarrow> byte list) \<Rightarrow> faults \<Rightarrow> store \<Rightarrow> int \<Rightarrow> tree_file list
     \<Rightarrow> error option \<times> store" where
  "safe_process_codebase md5 fl st codebase_id tree =
     (let source_files = get_source_files tree
      in case (if source_files = []
               then Inr [''No processable source files found in this repository. It may contain only documentation, images, or other non-code files.'']
               else foldl safe_file_chunks (Inr []) source_files) of
           Inl e \<Rightarrow> (Some e, st)
         | Inr docs \<Rightarrow> add_documents md5 fl st codebase_id docs None True)"

text \<open>A working tree that holds one image and nothing else.\<close>

definition image_only_tree :: "tree_file list" where
  "image_only_tree =
     [\<lparr>file_root = ''repos/pictures'', file_name = ''logo.png'', file_rel = ''logo.png'',
       file_text = []\<rparr>]"

section \<open>Notions used to state the properties of the store\<close>

text \<open>The documents of a tenant: the collection at the tenant's path and name.\<close>

definition tenant_docs :: "store \<Rightarrow> int \<Rightarrow> collection option" where
  "tenant_docs st codebase_id =
     read_collection (disk st) (get_db_path st codebase_id, get_collection_name codebase_id)"

text \<open>
  Every cached handle is the one \<open>get_client_and_collection\<close> caches for its tenant.
\<close>

definition cache_ok :: "store \<Rightarrow> bool" where
  "cache_ok st =
     (\<forall>c h. collections st c = Some h \<longrightarrow> h = (get_db_path st c, get_collection_name c))"

text \<open>Every document of a collection carries the tenant's id in its metadata.\<close>

definition tagged :: "int \<Rightarrow> collection \<Rightarrow> bool" where
  "tagged codebase_id c =
     list_all (\<lambda>d. map_of (doc_meta d) ''codebase_id'' = Some (MInt codebase_id)) c"

text \<open>
  A tenant in working order: when it has no cached client, no plain file lies on the
  way to its directory; when it has one, its handle is cached and its collection exists;
  and the documents it holds are tagged with its id, as \<open>add_documents\<close> stores them.
\<close>

definition tenant_ok :: "store \<Rightarrow> int \<Rightarrow> bool" where
  "tenant_ok st codebase_id =
     ((case clients st codebase_id of
         None \<Rightarrow> list_all (\<lambda>q. map_of (disk st) q \<noteq> Some File)
                   (ancestors (get_db_path st codebase_id))
       | Some cl \<Rightarrow>
           collections st codebase_id
             = Some (get_db_path st codebase_id, get_collection_name codebase_id)
           \<and> tenant_docs st codebase_id \<noteq> None)
      \<and> (case tenant_docs st codebase_id of None \<Rightarrow> True | Some c \<Rightarrow> tagged codebase_id c))"

text \<open>The records \<open>add_documents\<close> builds for a batch.\<close>

definition embedding_of :: "(byte list \<Rightarrow> byte list) \<Rightarrow> string \<Rightarrow> rat list" where
  "embedding_of md5 text =
     (case get_embedding md5 (codepoints text) of Inl e \<Rightarrow> [] | Inr v \<Rightarrow> v)"

definition new_documents ::
  "(byte list \<Rightarrow> byte list) \<Rightarrow> int \<Rightarrow> string list \<Rightarrow> metadata list option \<Rightarrow> document list" where
  "new_documents md5 codebase_id documents metadata =
     make_documents (document_ids codebase_id (length documents)) documents
       (map (embedding_of md5) documents)
       (document_metadata codebase_id (length documents) metadata)"

text \<open>
  Two file systems agree outside one path, up to empty directories created on the way.
\<close>

definition fs_frame :: "string \<Rightarrow> filesystem \<Rightarrow> filesystem \<Rightarrow> bool" where
  "fs_frame pa fs fs' =
     (\<forall>p. p \<noteq> pa \<longrightarrow>
        map_of fs' p = map_of fs p \<or> (map_of fs p = None \<and> map_of fs' p = Some (Dir [])))"

text \<open>States and faults on which the store is evaluated below.\<close>

definition tenant2_store :: store where
  "tenant2_store =
     snd (add_documents toy_digest no_faults (new_store ''vector_db'' []) 2 [''beta''] None True)"




section \<open>Lines of a text\<close>

lemma split_lines_Nil [simp]: "split_lines [] = [[]]"
  by (simp add: split_lines_def)

lemma split_lines_Cons [simp]:
  "split_lines (c # cs) =
     (if c = CHR 0x0A then [] # split_lines cs
      else (case split_lines cs of
              [] \<Rightarrow> [[c]]
            | l # ls \<Rightarrow> (c # l) # ls))"
  by (simp add: split_lines_def)

lemma split_lines_not_Nil [simp]: "split_lines s \<noteq> []"
  by (induction s) (auto split: list.splits)

lemma join_split_lines [simp]: "join_lines (split_lines s) = s"
proof (induction s)
  case Nil
  show ?case by simp
next
  case (Cons c cs)
  obtain l ls where e: "split_lines cs = l # ls"
    using split_lines_not_Nil [of cs] by (cases "split_lines cs") auto
  show ?case
  proof (cases "c = CHR 0x0A")
    case True
    with e Cons show ?thesis by simp
  next
    case False
    with e Cons show ?thesis by (cases ls) auto
  qed
qed

lemma split_lines_no_newline: "l \<in> set (split_lines s) \<Longrightarrow> CHR 0x0A \<notin> set l"
  by (induction s arbitrary: l) (auto split: if_splits list.splits)

lemma split_lines_line:
  "CHR 0x0A \<notin> set l \<Longrightarrow> split_lines (l @ CHR 0x0A # r) = l # split_lines r"
  by (induction l) (auto split: list.splits)

lemma split_lines_single: "CHR 0x0A \<notin> set l \<Longrightarrow> split_lines l = [l]"
  by (induction l) (auto split: list.splits)

lemma split_join_lines:
  "ls \<noteq> [] \<Longrightarrow> \<forall>l\<in>set ls. CHR 0x0A \<notin> set l \<Longrightarrow> split_lines (join_lines ls) = ls"
proof (induction ls rule: join_lines.induct)
  case 1
  then show ?case by simp
next
  case (2 l)
  then show ?case by (simp add: split_lines_single)
next
  case (3 l v va)
  then show ?case by (simp add: split_lines_line)
qed

section \<open>The index range of the splitter's loop\<close>

lemma range_idxs_step:
  fixes i n step :: int
  assumes "0 < step" "i < n"
  shows "map (\<lambda>k. i + int k * step) [0..<nat ((n - i + step - 1) div step)]
       = i # map (\<lambda>k. (i + step) + int k * step)
               [0..<nat ((n - (i + step) + step - 1) div step)]"
proof -
  let ?m = "nat ((n - (i + step) + step - 1) div step)"
  have "n - i + step - 1 = (n - (i + step) + step - 1) + 1 * step" by simp
  then have d: "(n - i + step - 1) div step = (n - (i + step) + step - 1) div step + 1"
    using assms(1) by (metis div_add_self2 less_irrefl mult_1)
  have nn: "0 \<le> (n - (i + step) + step - 1) div step"
    using assms by (simp add: pos_imp_zdiv_nonneg_iff)
  have "nat ((n - i + step - 1) div step) = Suc ?m"
    using d nn by simp
  then show ?thesis
    by (simp add: upt_rec [of 0] map_Suc_upt [symmetric] del: upt_Suc) (simp add: algebra_simps)
qed

lemma py_slice_window:
  assumes "0 \<le> i" "0 \<le> w"
  shows "py_slice xs i (i + w) = take (nat w) (drop (nat i) xs)"
proof (cases "i < int (length xs)")
  case True
  have "nat (min (i + w) (int (length xs)) - i) = min (nat w) (length xs - nat i)"
    using assms True by (auto simp: min_def)
  then show ?thesis
    using assms True by (simp add: py_slice_def slice_bound_def Let_def min_def)
next
  case False
  then show ?thesis
    using assms by (simp add: py_slice_def slice_bound_def Let_def min_def)
qed

lemma range_idxs_empty:
  fixes i n step :: int
  assumes "0 < step" "n \<le> i"
  shows "nat ((n - i + step - 1) div step) = 0"
proof -
  have "n - i + step - 1 < step" using assms by simp
  then have "(n - i + step - 1) div step \<le> 0"
    using assms(1) by (metis div_neg_pos_less0 div_pos_pos_trivial div_by_0 less_le not_le)
  then show ?thesis by simp
qed

lemma foldl_chunk_step_scan:
  assumes "0 \<le> ov" "ov < w" "0 \<le> i"
  shows "foldl (chunk_step w lines) acc
           (map (\<lambda>k. i + int k * (w - ov))
              [0..<nat ((int (length lines) - i + (w - ov) - 1) div (w - ov))])
         = acc @ spec_scan (nat w) (nat ov) lines (nat i)"
proof -
  define idxs where "idxs = (\<lambda>i. map (\<lambda>k. i + int k * (w - ov))
              [0..<nat ((int (length lines) - i + (w - ov) - 1) div (w - ov))])"
  have st: "0 < w - ov" using assms by simp
  have "foldl (chunk_step w lines) acc (idxs i)
         = acc @ spec_scan (nat w) (nat ov) lines (nat i)"
    using assms(3)
  proof (induction "length lines - nat i" arbitrary: i acc rule: less_induct)
    case less
    show ?case
    proof (cases "i < int (length lines)")
      case True
      have sl: "py_slice lines i (i + w) = take (nat w) (drop (nat i) lines)"
        using less.prems assms by (intro py_slice_window) auto
      have nx: "nat (i + (w - ov)) = nat i + (nat w - nat ov)"
        using less.prems assms by auto
      have m: "length lines - nat (i + (w - ov)) < length lines - nat i"
        using True less.prems st by auto
      have ih: "foldl (chunk_step w lines) acc' (idxs (i + (w - ov)))
           = acc' @ spec_scan (nat w) (nat ov) lines (nat i + (nat w - nat ov))" for acc'
        using less.hyps [OF m] less.prems st nx by simp
      have sc: "spec_scan (nat w) (nat ov) lines (nat i) =
          (let chunk = join_lines (take (nat w) (drop (nat i) lines))
           in (if strip chunk = [] then [] else [chunk])
              @ spec_scan (nat w) (nat ov) lines (nat i + (nat w - nat ov)))"
        using True less.prems assms by (subst spec_scan.simps) auto
      have un: "idxs i = i # idxs (i + (w - ov))"
        unfolding idxs_def by (rule range_idxs_step [OF st True])
      show ?thesis
        by (simp add: un ih sc sl chunk_step_def Let_def)
    next
      case False
      then have e: "idxs i = []"
        unfolding idxs_def using st by (simp add: range_idxs_empty)
      have "spec_scan (nat w) (nat ov) lines (nat i) = []"
        using False less.prems by (subst spec_scan.simps) auto
      then show ?thesis by (simp add: e)
    qed
  qed
  then show ?thesis by (simp add: idxs_def)
qed

lemma chunk_code_cfg_scan:
  assumes "0 \<le> ov" "ov < w"
  shows "chunk_code_cfg w ov text = Inr (spec_split (nat w) (nat ov) text)"
  using foldl_chunk_step_scan [OF assms, of 0 "split_lines text" "[]"] assms
  by (simp add: chunk_code_cfg_def py_range_def spec_split_def Let_def)

lemma chunk_code_scan: "chunk_code text = Inr (spec_split 40 10 text)"
  using chunk_code_cfg_scan [of 10 40 "text"]
  by (simp add: chunk_code_def CHUNK_SIZE_def CHUNK_OVERLAP_def)

lemma spec_scan_lines:
  "\<forall>l\<in>set lines. CHR 0x0A \<notin> set l \<Longrightarrow> c \<in> set (spec_scan w ov lines i)
     \<Longrightarrow> length (split_lines c) \<le> w"
proof (induction w ov lines i rule: spec_scan.induct)
  case (1 window overlap lines i)
  from "1.prems"(2) have guard: "overlap < window" "i < length lines"
    by (subst (asm) spec_scan.simps, simp split: if_splits)+
  let ?win = "take window (drop i lines)"
  from "1.prems"(2) guard
  have "c = join_lines ?win \<or> c \<in> set (spec_scan window overlap lines (i + (window - overlap)))"
    by (subst (asm) spec_scan.simps) (auto simp: Let_def split: if_splits)
  then show ?case
  proof
    assume c: "c = join_lines ?win"
    have ne: "?win \<noteq> []" using guard by simp
    have "\<forall>l\<in>set ?win. CHR 0x0A \<notin> set l"
      using "1.prems"(1) by (meson in_set_dropD in_set_takeD)
    then have "split_lines c = ?win" using c ne by (simp add: split_join_lines)
    then show ?thesis by simp
  next
    assume "c \<in> set (spec_scan window overlap lines (i + (window - overlap)))"
    then show ?thesis using "1.IH" "1.prems"(1) guard by simp
  qed
qed

lemma spec_scan_100:
  assumes "length lines = 100"
  shows "spec_scan 40 10 lines 0 =
     concat (map (\<lambda>k. if strip (window_text lines (30 * k)) = [] then []
                        else [window_text lines (30 * k)]) [0..<4])"
proof -
  have s120: "spec_scan 40 10 lines 120 = []"
    using assms by (subst spec_scan.simps) simp
  have s90: "spec_scan 40 10 lines 90 =
      (if strip (window_text lines 90) = [] then [] else [window_text lines 90])"
    using assms by (subst spec_scan.simps) (simp add: s120 Let_def window_text_def)
  have s60: "spec_scan 40 10 lines 60 =
      (if strip (window_text lines 60) = [] then [] else [window_text lines 60])
      @ spec_scan 40 10 lines 90"
    using assms by (subst spec_scan.simps) (simp add: Let_def window_text_def)
  have s30: "spec_scan 40 10 lines 30 =
      (if strip (window_text lines 30) = [] then [] else [window_text lines 30])
      @ spec_scan 40 10 lines 60"
    using assms by (subst spec_scan.simps) (simp add: Let_def window_text_def)
  have s0: "spec_scan 40 10 lines 0 =
      (if strip (window_text lines 0) = [] then [] else [window_text lines 0])
      @ spec_scan 40 10 lines 30"
    using assms by (subst spec_scan.simps) (simp add: Let_def window_text_def)
  have u: "[0..<4] = [0, 1, 2, Suc 2]"
    by (simp add: upt_rec)
  show ?thesis
    unfolding s0 s30 s60 s90 u by simp
qed

lemma window_text_lines:
  assumes "\<forall>l\<in>set lines. CHR 0x0A \<notin> set l" "i < length lines"
  shows "split_lines (window_text lines i) = take 40 (drop i lines)"
proof -
  have "take 40 (drop i lines) \<noteq> []" using assms(2) by simp
  moreover have "\<forall>l\<in>set (take 40 (drop i lines)). CHR 0x0A \<notin> set l"
    using assms(1) by (meson in_set_dropD in_set_takeD)
  ultimately show ?thesis
    unfolding window_text_def by (rule split_join_lines)
qed

lemma window_overlap_100:
  assumes "length (split_lines txt) = 100" "k < 3"
  shows "drop 30 (split_lines (window_text (split_lines txt) (30 * k)))
           = take 10 (split_lines (window_text (split_lines txt) (30 * Suc k)))
       \<and> length (drop 30 (split_lines (window_text (split_lines txt) (30 * k)))) = 10"
proof -
  let ?ls = "split_lines txt"
  have nl: "\<forall>l\<in>set ?ls. CHR 0x0A \<notin> set l"
    by (simp add: split_lines_no_newline)
  have a: "split_lines (window_text ?ls (30 * k)) = take 40 (drop (30 * k) ?ls)"
    using assms by (intro window_text_lines [OF nl]) simp
  have b: "split_lines (window_text ?ls (30 * Suc k)) = take 40 (drop (30 * Suc k) ?ls)"
    using assms by (intro window_text_lines [OF nl]) simp
  have c: "drop 30 (take 40 (drop (30 * k) ?ls)) = take 10 (drop (30 * Suc k) ?ls)"
    by (simp add: drop_take add.commute)
  have d: "length (take 10 (drop (30 * Suc k) ?ls)) = 10"
    using assms by simp
  show ?thesis
    using d by (simp only: a b c take_take) simp
qed

section \<open>The hex digest and the embedding loop\<close>

lemma hex_val_digit_all: "\<forall>k\<in>set [0..<16]. hex_val (hex_digit k) = Some k"
  by code_simp

lemma hex_val_digit: "k < 16 \<Longrightarrow> hex_val (hex_digit k) = Some k"
  using hex_val_digit_all by simp

lemma int_hex_byte: "int_hex (hex_byte b) = Inr (int (unat b))"
proof -
  have a: "unat b div 16 < 16"
    using unsigned_less [of b, where ?'a = nat] by simp
  have m: "unat b mod 16 < 16" by simp
  show ?thesis
    by (simp add: int_hex_def hex_byte_def hex_val_digit [OF a] hex_val_digit [OF m])
qed

lemma length_hexdigest: "length (hexdigest d) = 2 * length d"
  by (induction d) (simp_all add: hexdigest_def hex_byte_def)

lemma drop_hexdigest: "drop (2 * n) (hexdigest d) = hexdigest (drop n d)"
proof (induction d arbitrary: n)
  case Nil
  then show ?case by (simp add: hexdigest_def)
next
  case (Cons b d)
  show ?case
  proof (cases n)
    case 0
    then show ?thesis by simp
  next
    case (Suc m)
    have "drop (2 * Suc m) (hexdigest (b # d)) = drop (2 * m) (hexdigest d)"
      by (simp add: hexdigest_def hex_byte_def)
    with Suc Cons show ?thesis by simp
  qed
qed

lemma hex_pair_at:
  assumes "n < length d"
  shows "py_slice (hexdigest d) (2 * int n) (2 * int n + 2) = hex_byte (d ! n)"
proof -
  have "nat (2 * int n) = 2 * n" by simp
  then have "py_slice (hexdigest d) (2 * int n) (2 * int n + 2)
      = take 2 (drop (2 * n) (hexdigest d))"
    by (subst py_slice_window) simp_all
  also have "\<dots> = take 2 (hexdigest (drop n d))"
    by (simp only: drop_hexdigest)
  also have "drop n d = d ! n # drop (Suc n) d"
    using assms by (simp add: Cons_nth_drop_Suc)
  finally show ?thesis
    by (simp add: hexdigest_def hex_byte_def)
qed

lemma foldl_embed_step:
  "n \<le> length d \<Longrightarrow>
   foldl (embed_step (hexdigest d)) (Inr []) (map (\<lambda>k. int (2 * k)) [0..<n])
     = Inr (map byte_coord (take n d))"
proof (induction n)
  case 0
  then show ?case by simp
next
  case (Suc n)
  then have lt: "n < length d" by simp
  have "take (Suc n) d = take n d @ [d ! n]"
    using lt by (simp add: take_Suc_conv_app_nth)
  moreover have "embed_step (hexdigest d) (Inr e) (2 * int n) = Inr (e @ [byte_coord (d ! n)])" for e
    by (simp add: embed_step_def hex_pair_at [OF lt] int_hex_byte byte_coord_def Let_def)
  ultimately show ?case
    using Suc lt by simp
qed

lemma py_range_pairs:
  "py_range 0 (int (2 * n)) 2 = Inr (map (\<lambda>k. int (2 * k)) [0..<n])"
proof -
  have "(int (2 * n) - 0 + 2 - 1) div 2 = int n" by simp
  then show ?thesis by (simp add: py_range_def mult.commute)
qed

section \<open>Float arithmetic on the values of the embedding\<close>

lemma binade_le:
  assumes "q \<noteq> 0"
  shows "2 powi binade q \<le> \<bar>q\<bar>"
proof -
  obtain n d where qd: "quotient_of \<bar>q\<bar> = (n, d)" by (cases "quotient_of \<bar>q\<bar>")
  have dpos: "0 < d" using qd by (rule quotient_of_denom_pos)
  have a: "\<bar>q\<bar> = of_int n / of_int d" using qd by (rule quotient_of_div)
  have "0 < \<bar>q\<bar>" using assms by simp
  then have npos: "0 < n" using a dpos by (simp add: zero_less_divide_iff)
  let ?e = "bitlen n - bitlen d"
  show ?thesis
  proof (cases "2 powi ?e \<le> \<bar>q\<bar>")
    case True
    then show ?thesis by (simp add: binade_def qd Let_def)
  next
    case False
    have bn: "1 \<le> bitlen n" using npos by (simp add: bitlen_alt_def)
    have bd: "1 \<le> bitlen d" using dpos by (simp add: bitlen_alt_def)
    from bitlen_bounds [OF npos] have "2 ^ nat (bitlen n - 1) \<le> n" by simp
    then have "(of_int (2 ^ nat (bitlen n - 1)) :: rat) \<le> of_int n" by (simp only: of_int_le_iff)
    then have ln: "(2::rat) powi (bitlen n - 1) \<le> of_int n"
      using bn by (simp add: power_int_def)
    from bitlen_bounds [OF dpos] have "d < 2 ^ nat (bitlen d)" by simp
    then have "(of_int d :: rat) < of_int (2 ^ nat (bitlen d))" by (simp only: of_int_less_iff)
    then have ld: "(of_int d :: rat) \<le> 2 powi (bitlen d)"
      using bd by (simp add: power_int_def)
    have "(2::rat) powi (?e - 1) * 2 powi (bitlen d) = 2 powi (bitlen n - 1)"
      by (simp flip: power_int_add)
    then have "(2::rat) powi (?e - 1) = 2 powi (bitlen n - 1) / 2 powi (bitlen d)"
      by (simp add: field_simps)
    also have "\<dots> \<le> of_int n / 2 powi (bitlen d)"
      using ln by (simp add: divide_right_mono)
    also have "\<dots> \<le> of_int n / of_int d"
      using ld dpos npos by (intro divide_left_mono) simp_all
    finally have "(2::rat) powi (?e - 1) \<le> \<bar>q\<bar>" using a by simp
    with False show ?thesis by (simp add: binade_def qd Let_def)
  qed
qed

lemma binade_upper:
  assumes "q \<noteq> 0" "\<bar>q\<bar> < 2 powi (k + 1)" "0 \<le> k + 1"
  shows "binade q \<le> k"
proof -
  have "(2::rat) powi binade q < 2 powi (k + 1)"
    using binade_le [OF assms(1)] assms(2) by simp
  then have "binade q < k + 1"
    using assms(3) by (intro power_int_le_imp_less_exp [of "2::rat"]) simp_all
  then show ?thesis by simp
qed

lemma binade_gt:
  assumes "q \<noteq> 0"
  shows "\<bar>q\<bar> < 2 powi (binade q + 1)"
proof -
  obtain n d where qd: "quotient_of \<bar>q\<bar> = (n, d)" by (cases "quotient_of \<bar>q\<bar>")
  have dpos: "0 < d" using qd by (rule quotient_of_denom_pos)
  have a: "\<bar>q\<bar> = of_int n / of_int d" using qd by (rule quotient_of_div)
  have "0 < \<bar>q\<bar>" using assms by simp
  then have npos: "0 < n" using a dpos by (simp add: zero_less_divide_iff)
  let ?e = "bitlen n - bitlen d"
  show ?thesis
  proof (cases "2 powi ?e \<le> \<bar>q\<bar>")
    case False
    then show ?thesis by (simp add: binade_def qd Let_def)
  next
    case True
    have bn: "1 \<le> bitlen n" using npos by (simp add: bitlen_alt_def)
    have bd: "1 \<le> bitlen d" using dpos by (simp add: bitlen_alt_def)
    from bitlen_bounds [OF npos] have "n < 2 ^ nat (bitlen n)" by simp
    then have "(of_int n :: rat) < of_int (2 ^ nat (bitlen n))" by (simp only: of_int_less_iff)
    then have ln: "(of_int n :: rat) < 2 powi (bitlen n)"
      using bn by (simp add: power_int_def)
    from bitlen_bounds [OF dpos] have "2 ^ nat (bitlen d - 1) \<le> d" by simp
    then have "(of_int (2 ^ nat (bitlen d - 1)) :: rat) \<le> of_int d" by (simp only: of_int_le_iff)
    then have ld: "(2::rat) powi (bitlen d - 1) \<le> of_int d"
      using bd by (simp add: power_int_def)
    have p: "(0::rat) < 2 powi (bitlen d - 1)" by simp
    have "(of_int n :: rat) / of_int d \<le> of_int n / 2 powi (bitlen d - 1)"
      by (intro divide_left_mono mult_pos_pos) (simp_all add: ld dpos npos less_imp_le)
    also have "\<dots> < 2 powi (bitlen n) / 2 powi (bitlen d - 1)"
      using ln p by (simp add: divide_strict_right_mono)
    also have "\<dots> = 2 powi (?e + 1)"
    proof -
      have "(2::rat) powi (?e + 1) * 2 powi (bitlen d - 1) = 2 powi (bitlen n)"
        by (simp flip: power_int_add)
      then show ?thesis by (simp add: field_simps)
    qed
    finally have "\<bar>q\<bar> < 2 powi (?e + 1)" using a by simp
    with True show ?thesis by (simp add: binade_def qd Let_def)
  qed
qed

lemma powi_less_cancel:
  assumes "(2::rat) powi m < 2 powi n"
  shows "m < n"
proof (rule ccontr)
  assume "\<not> m < n"
  then have "n \<le> m" by simp
  then have "(2::rat) powi n \<le> 2 powi m" by (intro power_int_increasing) simp_all
  with assms show False by simp
qed

lemma binade_eq:
  assumes lo: "2 powi e \<le> \<bar>q\<bar>" and hi: "\<bar>q\<bar> < 2 powi (e + 1)"
  shows "binade q = e"
proof -
  have q: "q \<noteq> 0"
  proof
    assume "q = 0"
    with lo have "(2::rat) powi e \<le> 0" by simp
    moreover have "(0::rat) < 2 powi e" by simp
    ultimately show False by linarith
  qed
  have "(2::rat) powi e < 2 powi (binade q + 1)"
    using lo binade_gt [OF q] by simp
  then have a: "e < binade q + 1"
    by (rule powi_less_cancel)
  have "(2::rat) powi binade q < 2 powi (e + 1)"
    using hi binade_le [OF q] by simp
  then have b: "binade q < e + 1"
    by (rule powi_less_cancel)
  from a b show ?thesis by simp
qed

lemma round_half_even_between:
  "\<lfloor>x\<rfloor> \<le> round_half_even x \<and> round_half_even x \<le> \<lceil>x\<rceil>"
proof -
  have "x - of_int \<lfloor>x\<rfloor> \<noteq> 0 \<Longrightarrow> \<lfloor>x\<rfloor> + 1 = \<lceil>x\<rceil>"
    by (metis ceiling_altdef eq_iff_diff_eq_0)
  moreover have "\<lfloor>x\<rfloor> \<le> \<lceil>x\<rceil>" by (simp add: floor_le_ceiling)
  ultimately show ?thesis
    by (auto simp: round_half_even_def Let_def)
qed

lemma round_half_even_abs:
  assumes "\<bar>x\<bar> \<le> of_int N"
  shows "\<bar>round_half_even x\<bar> \<le> N"
proof -
  from assms have "x \<le> of_int N" "- of_int N \<le> x" by simp_all
  then have "\<lceil>x\<rceil> \<le> N" "- N \<le> \<lfloor>x\<rfloor>"
    by (simp_all add: ceiling_le_iff le_floor_iff)
  with round_half_even_between [of x] show ?thesis by linarith
qed

lemma round_double_bound:
  assumes le: "\<bar>q\<bar> \<le> of_int m * 2 powi j" and lt: "\<bar>q\<bar> < 2 powi (k + 1)"
    and k: "0 \<le> k + 1" "k \<le> j + 52" "- 1022 \<le> j + 52"
  shows "\<bar>round_double q\<bar> \<le> of_int m * 2 powi j"
proof (cases "q = 0")
  case True
  with le show ?thesis by (simp add: round_double_def)
next
  case False
  define E where "E = max (binade q) (- 1022)"
  define ulp :: rat where "ulp = 2 powi (E - 52)"
  define d where "d = j - (E - 52)"
  define N where "N = m * 2 ^ nat d"
  have E: "E \<le> j + 52"
    unfolding E_def using binade_upper [OF False lt k(1)] k(2,3) by simp
  then have d0: "0 \<le> d" by (simp add: d_def)
  have up: "0 < ulp" by (simp add: ulp_def)
  have "j = d + (E - 52)" by (simp add: d_def)
  moreover have "(2::rat) powi (d + (E - 52)) = 2 powi d * 2 powi (E - 52)"
    by (rule power_int_add) simp
  ultimately have "(2::rat) powi j = 2 powi d * 2 powi (E - 52)"
    by (simp only:)
  moreover have "(2::rat) powi d = of_int (2 ^ nat d)"
    using d0 by (simp add: power_int_def)
  ultimately have R: "of_int m * (2::rat) powi j = of_int N * ulp"
    by (simp add: N_def ulp_def)
  have "\<bar>q / ulp\<bar> = \<bar>q\<bar> / ulp" using up by simp
  also have "\<dots> \<le> of_int N"
    using le up unfolding R by (simp add: pos_divide_le_eq)
  finally have "\<bar>round_half_even (q / ulp)\<bar> \<le> N"
    by (rule round_half_even_abs)
  then have "(of_int \<bar>round_half_even (q / ulp)\<bar> :: rat) \<le> of_int N"
    by (simp only: of_int_le_iff)
  then have "(of_int \<bar>round_half_even (q / ulp)\<bar> :: rat) * ulp \<le> of_int N * ulp"
    using up by (simp only: mult_le_cancel_right_pos)
  moreover have "\<bar>of_int (round_half_even (q / ulp)) * ulp\<bar>
      = (of_int \<bar>round_half_even (q / ulp)\<bar> :: rat) * ulp"
    using up by (simp add: abs_mult)
  moreover have "round_double q = of_int (round_half_even (q / ulp)) * ulp"
    using False by (simp add: round_double_def Let_def ulp_def E_def)
  ultimately show ?thesis
    unfolding R by simp
qed

lemma round_double_nonneg: "0 \<le> q \<Longrightarrow> 0 \<le> round_double q"
proof -
  assume q: "0 \<le> q"
  have "0 \<le> round_half_even (q / 2 powi e)" for e
  proof -
    have "0 \<le> q / 2 powi e" using q by simp
    then have "0 \<le> \<lfloor>q / 2 powi e\<rfloor>" by (simp only: zero_le_floor)
    with round_half_even_between [of "q / 2 powi e"] show ?thesis by linarith
  qed
  then show ?thesis by (simp add: round_double_def Let_def)
qed

lemma byte_value_range:
  assumes "0 \<le> v" "v \<le> 255"
  shows "\<bar>float_div (float_sub (float_of_int v) (255 / 2)) (255 / 2)\<bar> \<le> 1"
proof -
  let ?a = "float_of_int v"
  let ?b = "float_sub ?a (255 / 2)"
  have "\<bar>(of_int v :: rat)\<bar> \<le> of_int 255 * 2 powi 0"
    using assms by simp
  moreover have "\<bar>(of_int v :: rat)\<bar> < 2 powi (7 + 1)"
    using assms by simp
  ultimately have "\<bar>?a\<bar> \<le> of_int 255 * 2 powi 0"
    unfolding float_of_int_def by (rule round_double_bound) simp_all
  moreover have "0 \<le> ?a"
    unfolding float_of_int_def using assms by (intro round_double_nonneg) simp
  ultimately have a: "0 \<le> ?a" "?a \<le> 255" by simp_all
  then have "\<bar>?a - 255 / 2\<bar> \<le> 255 / 2" by linarith
  then have "\<bar>?a - 255 / 2\<bar> \<le> of_int 255 * 2 powi (- 1)"
    by (simp add: power_int_minus)
  moreover from a have "\<bar>?a - 255 / 2\<bar> < 128" by linarith
  then have "\<bar>?a - 255 / 2\<bar> < 2 powi (6 + 1)" by simp
  ultimately have "\<bar>?b\<bar> \<le> of_int 255 * 2 powi (- 1)"
    unfolding float_sub_def by (rule round_double_bound) simp_all
  then have b: "\<bar>?b\<bar> \<le> 255 / 2" by (simp add: power_int_minus)
  have d: "\<bar>?b / (255 / 2)\<bar> = \<bar>?b\<bar> * (2 / 255)" by (simp add: abs_mult)
  have "\<bar>?b / (255 / 2)\<bar> \<le> 1" unfolding d using b by linarith
  then have "\<bar>?b / (255 / 2)\<bar> \<le> of_int 1 * 2 powi 0" by simp
  moreover have "\<bar>?b / (255 / 2)\<bar> < 2" unfolding d using b by linarith
  then have "\<bar>?b / (255 / 2)\<bar> < 2 powi (0 + 1)" by simp
  ultimately have "\<bar>float_div ?b (255 / 2)\<bar> \<le> of_int 1 * 2 powi 0"
    unfolding float_div_def by (rule round_double_bound) simp_all
  then show ?thesis by simp
qed

lemma round_half_even_of_int: "round_half_even (of_int n) = n"
  by (simp add: round_half_even_def)

lemma round_double_exact:
  assumes q: "q = of_int m * 2 powi j" and lt: "\<bar>q\<bar> < 2 powi (k + 1)"
    and k: "0 \<le> k + 1" "k \<le> j + 52" "- 1022 \<le> j + 52"
  shows "round_double q = q"
proof (cases "q = 0")
  case True
  then show ?thesis by (simp add: round_double_def)
next
  case False
  define E where "E = max (binade q) (- 1022)"
  define ulp :: rat where "ulp = 2 powi (E - 52)"
  define d where "d = j - (E - 52)"
  define N where "N = m * 2 ^ nat d"
  have E: "E \<le> j + 52"
    unfolding E_def using binade_upper [OF False lt k(1)] k(2,3) by simp
  then have d0: "0 \<le> d" by (simp add: d_def)
  have up: "0 < ulp" by (simp add: ulp_def)
  have "j = d + (E - 52)" by (simp add: d_def)
  moreover have "(2::rat) powi (d + (E - 52)) = 2 powi d * 2 powi (E - 52)"
    by (rule power_int_add) simp
  ultimately have "(2::rat) powi j = 2 powi d * 2 powi (E - 52)"
    by (simp only:)
  moreover have "(2::rat) powi d = of_int (2 ^ nat d)"
    using d0 by (simp add: power_int_def)
  ultimately have R: "q = of_int N * ulp"
    by (simp add: q N_def ulp_def)
  then have "q / ulp = of_int N" using up by simp
  then have "round_half_even (q / ulp) = N"
    by (simp only: round_half_even_of_int)
  moreover have "round_double q = of_int (round_half_even (q / ulp)) * ulp"
    using False by (simp add: round_double_def Let_def ulp_def E_def)
  ultimately show ?thesis using R by simp
qed

lemma float_of_int_exact:
  assumes "0 \<le> v" "v \<le> 255"
  shows "float_of_int v = of_int v"
  unfolding float_of_int_def
proof (rule round_double_exact [where m = v and j = 0 and k = 7])
  show "(of_int v :: rat) = of_int v * 2 powi 0" by simp
  show "\<bar>(of_int v :: rat)\<bar> < 2 powi (7 + 1)" using assms by simp
qed simp_all

lemma float_sub_exact:
  assumes "0 \<le> v" "v \<le> 255"
  shows "float_sub (of_int v) (255 / 2) = of_int v - 255 / 2"
  unfolding float_sub_def
proof (rule round_double_exact [where m = "2 * v - 255" and j = "- 1" and k = 6])
  show "(of_int v :: rat) - 255 / 2 = of_int (2 * v - 255) * 2 powi (- 1)"
    by (simp add: power_int_minus field_simps)
  have "\<bar>(of_int v :: rat) - 255 / 2\<bar> < 128" using assms by (simp add: abs_less_iff)
  then show "\<bar>(of_int v :: rat) - 255 / 2\<bar> < 2 powi (6 + 1)" by simp
qed simp_all

lemma byte_value_nearest:
  assumes "0 \<le> v" "v \<le> 255"
  shows "float_div (float_sub (float_of_int v) (255 / 2)) (255 / 2)
       = round_double ((of_int v - 255 / 2) / (255 / 2))"
  by (simp only: float_of_int_exact [OF assms] float_sub_exact [OF assms] float_div_def)

lemma byte_of_unat: "0 \<le> int (unat b) \<and> int (unat (b :: byte)) \<le> 255"
proof -
  have "uint b < 256" using unsigned_less [of b, where ?'a = int] by simp
  then show ?thesis by simp
qed

lemma byte_coord_range: "- 1 \<le> byte_coord b \<and> byte_coord b \<le> 1"
proof -
  have h: "(127.5::rat) = 255 / 2" by simp
  have "\<bar>byte_coord b\<bar> \<le> 1"
    unfolding byte_coord_def h
    using byte_of_unat [of b] by (intro byte_value_range) simp_all
  then show ?thesis by (simp add: abs_le_iff)
qed

lemma byte_coord_nearest:
  "byte_coord b = round_double ((of_int (int (unat b)) - 127.5) / 127.5)"
proof -
  have h: "(127.5::rat) = 255 / 2" by simp
  show ?thesis
    unfolding byte_coord_def h
    using byte_of_unat [of b] by (intro byte_value_nearest) simp_all
qed

lemma round_double_minus_one: "round_double (- 1) = - 1"
  by (rule round_double_exact [where m = "- 1" and j = 0 and k = 0]) simp_all

text \<open>The value at the byte 97: the binary64 number that Python prints as -0.23921568627450981.\<close>

lemma byte_coord_97: "byte_coord 97 = - (8618653404536479 / 36028797018963968)"
proof -
  have q: "(rat_of_int (int (unat (97 :: byte))) - 127.5) / 127.5 = - (61 / 255)"
    by simp
  have b: "binade (- (61 / 255)) = - 3"
    by (rule binade_eq) (simp_all add: power_int_def power_divide)
  have u: "(2::rat) powi (- 55) = 1 / 36028797018963968"
    by (simp add: power_int_def field_simps)
  have f: "\<lfloor>- (2197756618156802048 / 255) :: rat\<rfloor> = - 8618653404536479"
    by (rule floor_unique) simp_all
  have r: "round_half_even (- (2197756618156802048 / 255)) = - 8618653404536479"
    by (simp add: round_half_even_def Let_def f)
  show ?thesis
    unfolding byte_coord_nearest [of 97] q
    by (simp add: round_double_def b u r Let_def)
qed

section \<open>The embedding of a string\<close>

lemma get_embedding_encoded:
  assumes "utf8_encode text = Inr encoded"
  shows "get_embedding md5 text
     = Inr (take 16 (map byte_coord (md5 encoded) @ replicate 16 0))"
proof -
  let ?d = "md5 encoded"
  have f: "foldl (embed_step (hexdigest ?d)) (Inr []) (map (\<lambda>k. int (2 * k)) [0..<length ?d])
      = Inr (map byte_coord ?d)"
    using foldl_embed_step [of "length ?d" ?d] by simp
  show ?thesis
    by (simp add: get_embedding_def assms Let_def length_hexdigest py_range_pairs f
        del: of_nat_mult)
qed

lemma get_embedding_unencodable:
  "utf8_encode text = Inl e \<Longrightarrow> get_embedding md5 text = Inl e"
  by (simp add: get_embedding_def)

lemma codepoints_no_surrogate: "\<not> list_ex is_surrogate (codepoints s)"
proof -
  have "\<not> is_surrogate (of_char c)" for c
    using nat_of_char_less_256 [of c] unfolding is_surrogate_def by linarith
  then show ?thesis by (simp add: codepoints_def list_ex_iff)
qed

lemma utf8_encode_codepoints:
  "utf8_encode (codepoints s) = Inr (concat (map utf8_encode_cp (codepoints s)))"
  by (simp add: utf8_encode_def codepoints_no_surrogate)

lemma get_embedding_codepoints:
  "get_embedding md5 (codepoints s)
     = Inr (take 16 (map byte_coord (md5 (concat (map utf8_encode_cp (codepoints s))))
                      @ replicate 16 0))"
  by (rule get_embedding_encoded [OF utf8_encode_codepoints])

section \<open>Decimal rendering, paths and document ids are injective\<close>

lemma digit_val_char_all: "\<forall>k\<in>set [0..<10]. digit_val (digit_char k) = Some k"
  by code_simp

lemma digit_val_char: "k < 10 \<Longrightarrow> digit_val (digit_char k) = Some k"
  using digit_val_char_all by simp

lemma digits_val_snoc:
  "digits_val acc (xs @ [c]) =
     (case digits_val acc xs of
        None \<Rightarrow> None
      | Some v \<Rightarrow> (case digit_val c of None \<Rightarrow> None | Some d \<Rightarrow> Some (10 * v + d)))"
  by (induction xs arbitrary: acc) (auto split: option.splits)

lemma digits_val_nat_digits: "digits_val 0 (nat_digits n) = Some n"
proof (induction n rule: nat_digits.induct)
  case (1 n)
  show ?case
  proof (cases "n < 10")
    case True
    then show ?thesis
      by (subst nat_digits.simps) (simp add: digit_val_char)
  next
    case False
    have m: "n mod 10 < 10" by simp
    from False 1 have ih: "digits_val 0 (nat_digits (n div 10)) = Some (n div 10)" by simp
    from False show ?thesis
      by (subst nat_digits.simps) (simp add: digits_val_snoc ih digit_val_char [OF m])
  qed
qed

lemma nat_digits_inj: "nat_digits m = nat_digits n \<Longrightarrow> m = n"
  by (metis digits_val_nat_digits option.inject)

lemma nat_digits_not_Nil: "nat_digits n \<noteq> []"
  by (subst nat_digits.simps) simp

lemma nat_digits_chars: "c \<in> set (nat_digits n) \<Longrightarrow> c \<in> set ''0123456789''"
proof (induction n rule: nat_digits.induct)
  case (1 n)
  have d: "k < 10 \<Longrightarrow> digit_char k \<in> set ''0123456789''" for k
    unfolding digit_char_def by (rule nth_mem) simp
  have m: "n mod 10 < 10" by simp
  show ?case
  proof (cases "n < 10")
    case True
    then have "nat_digits n = [digit_char n]"
      by (subst nat_digits.simps) simp
    with "1.prems" True d show ?thesis by simp
  next
    case False
    then have "nat_digits n = nat_digits (n div 10) @ [digit_char (n mod 10)]"
      by (subst nat_digits.simps) simp
    with "1.prems" have "c \<in> set (nat_digits (n div 10)) \<or> c = digit_char (n mod 10)"
      by auto
    then show ?thesis using "1.IH" [OF False] d [OF m] by blast
  qed
qed

lemma str_int_chars: "c \<in> set (str_int i) \<Longrightarrow> c \<in> set ''-0123456789''"
  using nat_digits_chars by (fastforce simp: str_int_def split: if_splits)

lemma str_int_inj: "str_int i = str_int j \<Longrightarrow> i = j"
proof -
  assume e: "str_int i = str_int j"
  have nd: "CHR ''-'' # xs \<noteq> nat_digits n" for xs n
  proof
    assume "CHR ''-'' # xs = nat_digits n"
    then have "CHR ''-'' \<in> set (nat_digits n)" by (metis list.set_intros(1))
    then show False using nat_digits_chars by fastforce
  qed
  show ?thesis
  proof (cases "i < 0")
    case True
    show ?thesis
    proof (cases "j < 0")
      case True
      with \<open>i < 0\<close> e have "nat (- i) = nat (- j)"
        by (simp add: str_int_def nat_digits_inj)
      with True \<open>i < 0\<close> show ?thesis by simp
    next
      case False
      with True e nd show ?thesis by (simp add: str_int_def)
    qed
  next
    case False
    show ?thesis
    proof (cases "j < 0")
      case True
      with False e nd [of "nat_digits (nat (- j))" "nat i"] show ?thesis
        by (simp add: str_int_def)
    next
      case False
      with \<open>\<not> i < 0\<close> e have "nat i = nat j"
        by (simp add: str_int_def nat_digits_inj)
      with False \<open>\<not> i < 0\<close> show ?thesis by simp
    qed
  qed
qed

lemma path_join_inj:
  assumes "\<not> startswith x ''/''" "\<not> startswith y ''/''" "path_join a x = path_join a y"
  shows "x = y"
  using assms by (auto simp: path_join_def split: if_splits)

lemma codebase_name_no_slash: "\<not> startswith (''codebase_'' @ s) ''/''"
  by (simp add: startswith_def)

lemma get_db_path_inj: "get_db_path st a = get_db_path st b \<Longrightarrow> a = b"
proof -
  assume "get_db_path st a = get_db_path st b"
  then have "''codebase_'' @ str_int a = ''codebase_'' @ str_int b"
    unfolding get_db_path_def
    by (intro path_join_inj [OF codebase_name_no_slash codebase_name_no_slash])
  then show ?thesis by (simp add: str_int_inj)
qed

lemma distinct_document_ids: "distinct (document_ids codebase_id n)"
proof -
  have "inj_on (\<lambda>i. ''doc_'' @ str_int codebase_id @ ''_'' @ str_int (int i)) (set [0..<n])"
    by (rule inj_onI) (auto dest: str_int_inj)
  then show ?thesis unfolding document_ids_def by (simp add: distinct_map)
qed

lemma length_document_ids [simp]: "length (document_ids codebase_id n) = n"
  by (simp add: document_ids_def)

lemma get_embeddings_total:
  "\<exists>vs. get_embeddings md5 docs = Inr vs \<and> length vs = length docs"
  by (induction docs) (auto simp: get_embedding_codepoints)

section \<open>The file system operations\<close>

lemma fs_frame_refl: "fs_frame pa fs fs"
  by (simp add: fs_frame_def)

lemma fs_frame_step:
  "fs_frame pa fs fs' \<Longrightarrow> (\<And>p. p \<noteq> pa \<Longrightarrow> map_of fs'' p = map_of fs' p) \<Longrightarrow> fs_frame pa fs fs''"
  by (simp add: fs_frame_def)

lemma map_of_write_collection_other:
  "p \<noteq> fst h \<Longrightarrow> map_of (write_collection fs h c) p = map_of fs p"
  by (simp add: write_collection_def update_conv' split: option.splits node.splits)

lemma read_write_collection:
  "read_collection fs h \<noteq> None \<Longrightarrow> read_collection (write_collection fs h c) h = Some c"
  by (auto simp: read_collection_def write_collection_def update_conv'
      split: option.splits node.splits)

lemma map_of_get_or_create_other:
  "p \<noteq> path \<Longrightarrow> map_of (get_or_create_collection fs path name) p = map_of fs p"
  by (simp add: get_or_create_collection_def map_of_write_collection_other split: option.splits)

lemma read_get_or_create:
  "map_of fs path = Some (Dir db) \<Longrightarrow>
   read_collection (get_or_create_collection fs path name) (path, name)
     = Some (case map_of db name of None \<Rightarrow> [] | Some c \<Rightarrow> c)"
  by (auto simp: get_or_create_collection_def read_collection_def write_collection_def
      update_conv' split: option.splits)

lemma makedirs_step_Inr:
  "makedirs_step q (Inr fs) =
     (case map_of fs q of
        None \<Rightarrow> Inr (fs @ [(q, Dir [])])
      | Some File \<Rightarrow> Inl (OSError q)
      | Some (Dir db) \<Rightarrow> Inr fs)"
  by (simp add: makedirs_step_def)

lemma makedirs_step_Inl: "makedirs_step q (Inl e) = Inl e"
  by (simp add: makedirs_step_def)

lemma fold_makedirs_Inl: "fold makedirs_step qs (Inl e) = Inl e"
  by (induction qs) (simp_all add: makedirs_step_Inl)

lemma fold_makedirs_map_of:
  "fold makedirs_step qs (Inr fs) = Inr fs' \<Longrightarrow>
   map_of fs' q = (case map_of fs q of
                     Some n \<Rightarrow> Some n
                   | None \<Rightarrow> if q \<in> set qs then Some (Dir []) else None)"
proof (induction qs arbitrary: fs)
  case Nil
  then show ?case by (simp split: option.splits)
next
  case (Cons a qs)
  show ?case
  proof (cases "map_of fs a")
    case None
    with Cons.prems have "fold makedirs_step qs (Inr (fs @ [(a, Dir [])])) = Inr fs'"
      by (simp add: makedirs_step_Inr)
    from Cons.IH [OF this] None show ?thesis
      by (auto simp: map_add_def split: option.splits)
  next
    case (Some n)
    show ?thesis
    proof (cases n)
      case File
      with Some Cons.prems show ?thesis
        by (simp add: makedirs_step_Inr fold_makedirs_Inl)
    next
      case (Dir db)
      with Some Cons.prems have "fold makedirs_step qs (Inr fs) = Inr fs'"
        by (simp add: makedirs_step_Inr)
      from Cons.IH [OF this] Some show ?thesis
        by (auto split: option.splits)
    qed
  qed
qed

lemma fold_makedirs_no_file:
  "fold makedirs_step qs (Inr fs) = Inr fs' \<Longrightarrow> q \<in> set qs \<Longrightarrow> map_of fs q \<noteq> Some File"
proof (induction qs arbitrary: fs)
  case Nil
  then show ?case by simp
next
  case (Cons a qs)
  show ?case
  proof (cases "map_of fs a")
    case None
    with Cons.prems(1) have f: "fold makedirs_step qs (Inr (fs @ [(a, Dir [])])) = Inr fs'"
      by (simp add: makedirs_step_Inr)
    show ?thesis
    proof (cases "q = a")
      case True
      with None show ?thesis by simp
    next
      case False
      with Cons.prems(2) have "q \<in> set qs" by simp
      from Cons.IH [OF f this] show ?thesis
        by (auto simp: map_add_def split: option.splits)
    qed
  next
    case (Some n)
    show ?thesis
    proof (cases n)
      case File
      with Some Cons.prems(1) show ?thesis
        by (simp add: makedirs_step_Inr fold_makedirs_Inl)
    next
      case (Dir db)
      with Some Cons.prems(1) have f: "fold makedirs_step qs (Inr fs) = Inr fs'"
        by (simp add: makedirs_step_Inr)
      show ?thesis
      proof (cases "q = a")
        case True
        with Some Dir show ?thesis by simp
      next
        case False
        with Cons.prems(2) have "q \<in> set qs" by simp
        from Cons.IH [OF f this] show ?thesis .
      qed
    qed
  qed
qed

lemma fold_makedirs_ok:
  "list_all (\<lambda>q. map_of fs q \<noteq> Some File) qs \<Longrightarrow> \<exists>fs'. fold makedirs_step qs (Inr fs) = Inr fs'"
proof (induction qs arbitrary: fs)
  case Nil
  then show ?case by simp
next
  case (Cons a qs)
  show ?case
  proof (cases "map_of fs a")
    case None
    have "list_all (\<lambda>q. map_of (fs @ [(a, Dir [])]) q \<noteq> Some File) qs"
      using Cons.prems by (auto simp: list_all_iff map_add_def split: option.splits)
    from Cons.IH [OF this] None show ?thesis
      by (simp add: makedirs_step_Inr)
  next
    case (Some n)
    with Cons.prems obtain db where "n = Dir db" by (cases n) auto
    with Some Cons.prems Cons.IH [of fs] show ?thesis
      by (simp add: makedirs_step_Inr)
  qed
qed

lemma self_ancestor: "p \<in> set (ancestors p)"
  by (simp add: ancestors_def)

lemma makedirs_map_of:
  "makedirs fs p = Inr fs' \<Longrightarrow>
   map_of fs' q = (case map_of fs q of
                     Some n \<Rightarrow> Some n
                   | None \<Rightarrow> if q \<in> set (ancestors p) then Some (Dir []) else None)"
  unfolding makedirs_def by (rule fold_makedirs_map_of)

lemma makedirs_frame:
  assumes "makedirs fs p = Inr fs'"
  shows "fs_frame pa fs fs'"
  unfolding fs_frame_def
proof (intro allI impI)
  fix q
  show "map_of fs' q = map_of fs q \<or> map_of fs q = None \<and> map_of fs' q = Some (Dir [])"
  proof (cases "map_of fs q")
    case None
    then show ?thesis using makedirs_map_of [OF assms, of q] by simp
  next
    case (Some n)
    then show ?thesis using makedirs_map_of [OF assms, of q] by simp
  qed
qed

lemma makedirs_target:
  assumes "makedirs fs p = Inr fs'"
  shows "map_of fs' p = Some (Dir (case map_of fs p of Some (Dir db) \<Rightarrow> db | _ \<Rightarrow> []))"
proof (cases "map_of fs p")
  case None
  then show ?thesis using makedirs_map_of [OF assms, of p] by (simp add: self_ancestor)
next
  case (Some n)
  have "n \<noteq> File"
    using fold_makedirs_no_file [OF assms [unfolded makedirs_def] self_ancestor] Some by simp
  then obtain db where "n = Dir db" by (cases n) auto
  with Some show ?thesis using makedirs_map_of [OF assms, of p] by simp
qed

lemma makedirs_ok:
  "list_all (\<lambda>q. map_of fs q \<noteq> Some File) (ancestors p) \<Longrightarrow> \<exists>fs'. makedirs fs p = Inr fs'"
  unfolding makedirs_def by (rule fold_makedirs_ok)

section \<open>Provisioning a tenant and adding documents\<close>

lemma get_db_path_base: "base_db_dir st' = base_db_dir st \<Longrightarrow> get_db_path st' c = get_db_path st c"
  by (simp add: get_db_path_def)

lemma tenant_docs_cong:
  "base_db_dir st' = base_db_dir st \<Longrightarrow> disk st' = disk st \<Longrightarrow> tenant_docs st' c = tenant_docs st c"
  by (simp add: tenant_docs_def get_db_path_def)

lemma get_embeddings_value: "get_embeddings md5 docs = Inr (map (embedding_of md5) docs)"
  by (induction docs) (simp_all add: get_embedding_codepoints embedding_of_def)

lemma get_client_and_collection_Inr:
  assumes ok: "cache_ok st" and g: "get_client_and_collection st a = Inr st1"
  shows "base_db_dir st1 = base_db_dir st
       \<and> collections st1 = (collections st)(a \<mapsto> (get_db_path st a, get_collection_name a))
       \<and> clients st1 a \<noteq> None
       \<and> fs_frame (get_db_path st a) (disk st) (disk st1)
       \<and> cache_ok st1"
proof (cases "clients st a")
  case None
  from g None obtain fs where m: "makedirs (disk st) (get_db_path st a) = Inr fs"
    by (auto simp: get_client_and_collection_def Let_def split: sum.splits)
  with g None have st1: "st1 = st\<lparr>clients := (clients st)(a \<mapsto> get_db_path st a),
        collections := (collections st)(a \<mapsto> (get_db_path st a, get_collection_name a)),
        disk := get_or_create_collection fs (get_db_path st a) (get_collection_name a)\<rparr>"
    by (simp add: get_client_and_collection_def Let_def)
  have fr: "fs_frame (get_db_path st a) (disk st) (disk st1)"
    unfolding st1 using makedirs_frame [OF m]
    by (rule fs_frame_step) (simp add: map_of_get_or_create_other)
  have c: "cache_ok st1"
    using ok unfolding st1 cache_ok_def by (auto simp: get_db_path_def)
  show ?thesis using fr c by (simp add: st1)
next
  case (Some cl)
  with g have st1: "st1 = st" and "collections st a \<noteq> None"
    by (auto simp: get_client_and_collection_def split: if_splits)
  then obtain h where h: "collections st a = Some h" by auto
  with ok have "h = (get_db_path st a, get_collection_name a)"
    unfolding cache_ok_def by blast
  with h have "collections st = (collections st)(a \<mapsto> (get_db_path st a, get_collection_name a))"
    by (simp add: map_upd_triv)
  then show ?thesis using ok Some by (simp add: st1 fs_frame_refl)
qed

lemma get_client_and_collection_ok:
  assumes t: "tenant_ok st a"
  shows "\<exists>st1. get_client_and_collection st a = Inr st1
     \<and> base_db_dir st1 = base_db_dir st
     \<and> collections st1 a = Some (get_db_path st a, get_collection_name a)
     \<and> clients st1 a \<noteq> None
     \<and> tenant_docs st1 a = Some (case tenant_docs st a of None \<Rightarrow> [] | Some c \<Rightarrow> c)"
proof (cases "clients st a")
  case None
  with t have "list_all (\<lambda>q. map_of (disk st) q \<noteq> Some File) (ancestors (get_db_path st a))"
    by (simp add: tenant_ok_def)
  then obtain fs where m: "makedirs (disk st) (get_db_path st a) = Inr fs"
    using makedirs_ok by blast
  let ?st1 = "st\<lparr>clients := (clients st)(a \<mapsto> get_db_path st a),
        collections := (collections st)(a \<mapsto> (get_db_path st a, get_collection_name a)),
        disk := get_or_create_collection fs (get_db_path st a) (get_collection_name a)\<rparr>"
  have g: "get_client_and_collection st a = Inr ?st1"
    using None m by (simp add: get_client_and_collection_def Let_def)
  have "read_collection (get_or_create_collection fs (get_db_path st a) (get_collection_name a))
          (get_db_path st a, get_collection_name a)
        = Some (case tenant_docs st a of None \<Rightarrow> [] | Some c \<Rightarrow> c)"
    by (subst read_get_or_create [OF makedirs_target [OF m]])
       (simp add: tenant_docs_def read_collection_def split: option.splits node.splits)
  then have "tenant_docs ?st1 a = Some (case tenant_docs st a of None \<Rightarrow> [] | Some c \<Rightarrow> c)"
    by (simp add: tenant_docs_def get_db_path_def)
  with g show ?thesis by auto
next
  case (Some cl)
  with t have c: "collections st a = Some (get_db_path st a, get_collection_name a)"
    and d: "tenant_docs st a \<noteq> None"
    by (simp_all add: tenant_ok_def)
  have "get_client_and_collection st a = Inr st"
    using Some c by (simp add: get_client_and_collection_def)
  with Some c d show ?thesis by auto
qed

lemma add_documents_unfold:
  assumes "get_client_and_collection st a = Inr st1" "collections st1 a = Some h"
    "docs \<noteq> []" "read_collection (disk st1) h = Some c"
  shows "add_documents md5 fl st a docs meta repl =
     (let c1 = (if repl then clear_existing fl a c else c)
      in if add_fails fl
         then (Some (ChromaError ''add failed''), st1\<lparr>disk := write_collection (disk st1) h c1\<rparr>)
         else case coll_add (document_ids a (length docs)) docs (map (embedding_of md5) docs)
                     (document_metadata a (length docs) meta) c1 of
                Inl e \<Rightarrow> (Some e, st1\<lparr>disk := write_collection (disk st1) h c1\<rparr>)
              | Inr c2 \<Rightarrow> (None, st1\<lparr>disk := write_collection (disk st1) h c2\<rparr>))"
  using assms by (simp add: add_documents_def Let_def get_embeddings_value)

lemma write_keeps_frame:
  assumes "base_db_dir st1 = base_db_dir st" "cache_ok st1"
    "fs_frame pa (disk st) (disk st1)"
  shows "base_db_dir (st1\<lparr>disk := write_collection (disk st1) (pa, nm) cx\<rparr>) = base_db_dir st
       \<and> collections (st1\<lparr>disk := write_collection (disk st1) (pa, nm) cx\<rparr>) = collections st1
       \<and> fs_frame pa (disk st) (disk (st1\<lparr>disk := write_collection (disk st1) (pa, nm) cx\<rparr>))
       \<and> cache_ok (st1\<lparr>disk := write_collection (disk st1) (pa, nm) cx\<rparr>)"
proof -
  have "fs_frame pa (disk st) (write_collection (disk st1) (pa, nm) cx)"
    using assms(3) by (rule fs_frame_step) (simp add: map_of_write_collection_other)
  moreover have "cache_ok (st1\<lparr>disk := write_collection (disk st1) (pa, nm) cx\<rparr>)"
    using assms(2) by (simp add: cache_ok_def get_db_path_def)
  ultimately show ?thesis using assms(1) by simp
qed

lemma add_documents_frame:
  assumes ok: "cache_ok st"
  shows "base_db_dir (snd (add_documents md5 fl st a docs meta repl)) = base_db_dir st
       \<and> (\<forall>b. b \<noteq> a \<longrightarrow> collections (snd (add_documents md5 fl st a docs meta repl)) b
                          = collections st b)
       \<and> fs_frame (get_db_path st a) (disk st) (disk (snd (add_documents md5 fl st a docs meta repl)))
       \<and> cache_ok (snd (add_documents md5 fl st a docs meta repl))"
proof (cases "docs = []")
  case True
  then show ?thesis using ok by (simp add: add_documents_def fs_frame_refl)
next
  case False
  show ?thesis
  proof (cases "get_client_and_collection st a")
    case (Inl e)
    with False show ?thesis using ok by (simp add: add_documents_def fs_frame_refl)
  next
    case (Inr st1)
    note g = get_client_and_collection_Inr [OF ok Inr]
    let ?h = "(get_db_path st a, get_collection_name a)"
    from g have h: "collections st1 a = Some ?h" by simp
    have base: "base_db_dir st1 = base_db_dir st \<and> (\<forall>b. b \<noteq> a \<longrightarrow> collections st1 b = collections st b)
        \<and> fs_frame (get_db_path st a) (disk st) (disk st1) \<and> cache_ok st1"
      using g by simp
    show ?thesis
    proof (cases "read_collection (disk st1) ?h")
      case None
      with False Inr h have "add_documents md5 fl st a docs meta repl
          = (Some (ChromaError ''collection does not exist''), st1)"
        by (simp add: add_documents_def Let_def get_embeddings_value)
      with base show ?thesis by simp
    next
      case (Some c)
      have w: "base_db_dir (st1\<lparr>disk := write_collection (disk st1) ?h cx\<rparr>) = base_db_dir st
       \<and> collections (st1\<lparr>disk := write_collection (disk st1) ?h cx\<rparr>) = collections st1
       \<and> fs_frame (get_db_path st a) (disk st) (disk (st1\<lparr>disk := write_collection (disk st1) ?h cx\<rparr>))
       \<and> cache_ok (st1\<lparr>disk := write_collection (disk st1) ?h cx\<rparr>)" for cx
        using base by (intro write_keeps_frame) simp_all
      show ?thesis
        unfolding add_documents_unfold [OF Inr h False Some] Let_def
        using w base by (auto split: sum.splits)
    qed
  qed
qed

lemma read_collection_frame:
  assumes "fs_frame pa fs fs'" "fst h \<noteq> pa"
  shows "read_collection fs' h = read_collection fs h"
proof -
  from assms have "map_of fs' (fst h) = map_of fs (fst h)
      \<or> (map_of fs (fst h) = None \<and> map_of fs' (fst h) = Some (Dir []))"
    by (simp add: fs_frame_def)
  then show ?thesis by (auto simp: read_collection_def)
qed

lemma cache_ok_new_store: "cache_ok (new_store base fs)"
  by (simp add: cache_ok_def new_store_def)

section \<open>Replacing the documents of a tenant\<close>

lemma clear_existing_tagged:
  assumes "tagged a c" "\<not> get_fails fl" "\<not> delete_fails fl"
  shows "clear_existing fl a c = []"
proof -
  have f: "filter (\<lambda>d. map_of (doc_meta d) ''codebase_id'' = Some (MInt a)) c = c"
    using assms(1) by (simp add: tagged_def list_all_iff)
  have ids: "coll_get_where ''codebase_id'' (MInt a) c = map doc_id c"
    by (simp add: coll_get_where_def f)
  have del: "coll_delete (map doc_id c) c = []"
    by (simp add: coll_delete_def filter_empty_conv)
  show ?thesis
  proof (cases "c = []")
    case True
    then show ?thesis by (simp add: clear_existing_def coll_get_where_def Let_def)
  next
    case False
    then show ?thesis using assms(2,3) by (simp add: clear_existing_def ids del Let_def)
  qed
qed

lemma length_document_metadata_None [simp]:
  "length (document_metadata a n None) = n"
  by (simp add: document_metadata_def)

lemma length_document_metadata_Some [simp]:
  "length (document_metadata a n (Some ms)) = length ms"
  by (simp add: document_metadata_def)

lemma coll_add_empty:
  assumes "docs \<noteq> []"
  shows "coll_add (document_ids a (length docs)) docs (map (embedding_of md5) docs)
           (document_metadata a (length docs) meta) []
         = (if (\<exists>ms. meta = Some ms \<and> length ms \<noteq> length docs)
            then Inl (ChromaError ''unequal lengths'')
            else Inr (new_documents md5 a docs meta))"
proof -
  have ne: "document_ids a (length docs) \<noteq> []"
    using assms by (simp add: document_ids_def)
  show ?thesis
    by (cases meta) (simp_all add: coll_add_def ne distinct_document_ids new_documents_def)
qed

lemma document_metadata_tagged:
  "m \<in> set (document_metadata a n meta) \<Longrightarrow> map_of m ''codebase_id'' = Some (MInt a)"
  by (cases meta) (auto simp: document_metadata_def update_conv')

lemma make_documents_meta:
  "d \<in> set (make_documents ids docs embs metas) \<Longrightarrow> doc_meta d \<in> set metas"
  by (auto simp: make_documents_def dest!: set_zip_rightD)

lemma tagged_new_documents: "tagged a (new_documents md5 a docs meta)"
  unfolding tagged_def list_all_iff new_documents_def
  by (blast dest: make_documents_meta document_metadata_tagged)

lemma make_documents_text:
  "length ids = length docs \<Longrightarrow> length embs = length docs \<Longrightarrow> length metas = length docs \<Longrightarrow>
   map doc_text (make_documents ids docs embs metas) = docs"
proof (induction docs arbitrary: ids embs metas)
  case Nil
  then show ?case by (simp add: make_documents_def)
next
  case (Cons t docs)
  then obtain i ids' e embs' m metas' where
    "ids = i # ids'" "embs = e # embs'" "metas = m # metas'"
    by (metis length_Suc_conv)
  with Cons show ?case by (simp add: make_documents_def)
qed

lemma new_documents_text:
  "map doc_text (new_documents md5 a docs None) = docs"
  unfolding new_documents_def by (rule make_documents_text) simp_all

lemma add_documents_outcome:
  assumes t: "tenant_ok st a" and ne: "docs \<noteq> []"
  shows "\<exists>st1. base_db_dir st1 = base_db_dir st
     \<and> collections st1 a = Some (get_db_path st a, get_collection_name a)
     \<and> clients st1 a \<noteq> None
     \<and> tenant_docs st1 a \<noteq> None
     \<and> (let c0 = (case tenant_docs st a of None \<Rightarrow> [] | Some c \<Rightarrow> c);
             c1 = (if repl then clear_existing fl a c0 else c0);
             h = (get_db_path st a, get_collection_name a)
         in add_documents md5 fl st a docs meta repl =
              (if add_fails fl
               then (Some (ChromaError ''add failed''), st1\<lparr>disk := write_collection (disk st1) h c1\<rparr>)
               else case coll_add (document_ids a (length docs)) docs (map (embedding_of md5) docs)
                           (document_metadata a (length docs) meta) c1 of
                      Inl e \<Rightarrow> (Some e, st1\<lparr>disk := write_collection (disk st1) h c1\<rparr>)
                    | Inr c2 \<Rightarrow> (None, st1\<lparr>disk := write_collection (disk st1) h c2\<rparr>)))"
proof -
  from get_client_and_collection_ok [OF t] obtain st1 where
    g: "get_client_and_collection st a = Inr st1"
    and b: "base_db_dir st1 = base_db_dir st"
    and h: "collections st1 a = Some (get_db_path st a, get_collection_name a)"
    and cl: "clients st1 a \<noteq> None"
    and td: "tenant_docs st1 a = Some (case tenant_docs st a of None \<Rightarrow> [] | Some c \<Rightarrow> c)"
    by blast
  from td have r: "read_collection (disk st1) (get_db_path st a, get_collection_name a)
      = Some (case tenant_docs st a of None \<Rightarrow> [] | Some c \<Rightarrow> c)"
    by (simp add: tenant_docs_def get_db_path_base [OF b])
  show ?thesis
    using b h cl td add_documents_unfold [OF g h ne r, of md5 fl meta repl]
    by (intro exI [of _ st1]) (simp add: Let_def)
qed

lemma tenant_docs_written:
  assumes "tenant_docs st1 a \<noteq> None"
  shows "tenant_docs (st1\<lparr>disk := write_collection (disk st1)
                                  (get_db_path st1 a, get_collection_name a) c\<rparr>) a = Some c"
  using assms by (simp add: tenant_docs_def get_db_path_def read_write_collection)

lemma replace_outcome:
  assumes t: "tenant_ok st a" and ne: "docs \<noteq> []"
    and gf: "\<not> get_fails fl" and df: "\<not> delete_fails fl"
  shows "\<exists>st'. add_documents md5 fl st a docs meta True
            = (if add_fails fl then Some (ChromaError ''add failed'')
               else if (\<exists>ms. meta = Some ms \<and> length ms \<noteq> length docs)
                 then Some (ChromaError ''unequal lengths'')
               else None, st')
     \<and> tenant_docs st' a
          = Some (if add_fails fl \<or> (\<exists>ms. meta = Some ms \<and> length ms \<noteq> length docs)
                  then [] else new_documents md5 a docs meta)
     \<and> base_db_dir st' = base_db_dir st
     \<and> collections st' a = Some (get_db_path st a, get_collection_name a)
     \<and> clients st' a \<noteq> None"
proof -
  from add_documents_outcome [OF t ne, of True fl md5 meta] obtain st1 where
    b: "base_db_dir st1 = base_db_dir st"
    and h: "collections st1 a = Some (get_db_path st a, get_collection_name a)"
    and cl: "clients st1 a \<noteq> None"
    and td: "tenant_docs st1 a \<noteq> None"
    and ad: "(let c0 = (case tenant_docs st a of None \<Rightarrow> [] | Some c \<Rightarrow> c);
             c1 = (if True then clear_existing fl a c0 else c0);
             h = (get_db_path st a, get_collection_name a)
         in add_documents md5 fl st a docs meta True =
              (if add_fails fl
               then (Some (ChromaError ''add failed''), st1\<lparr>disk := write_collection (disk st1) h c1\<rparr>)
               else case coll_add (document_ids a (length docs)) docs (map (embedding_of md5) docs)
                           (document_metadata a (length docs) meta) c1 of
                      Inl e \<Rightarrow> (Some e, st1\<lparr>disk := write_collection (disk st1) h c1\<rparr>)
                    | Inr c2 \<Rightarrow> (None, st1\<lparr>disk := write_collection (disk st1) h c2\<rparr>)))"
    by blast
  have tg: "tagged a (case tenant_docs st a of None \<Rightarrow> [] | Some c \<Rightarrow> c)"
    using t by (auto simp: tenant_ok_def tagged_def split: option.splits)
  have c1: "clear_existing fl a (case tenant_docs st a of None \<Rightarrow> [] | Some c \<Rightarrow> c) = []"
    using tg gf df by (rule clear_existing_tagged)
  have w: "tenant_docs (st1\<lparr>disk := write_collection (disk st1)
                                  (get_db_path st a, get_collection_name a) c\<rparr>) a = Some c" for c
    using tenant_docs_written [OF td, of c] by (simp add: get_db_path_base [OF b])
  let ?w = "\<lambda>c. st1\<lparr>disk := write_collection (disk st1) (get_db_path st a, get_collection_name a) c\<rparr>"
  have props: "base_db_dir (?w c) = base_db_dir st
      \<and> collections (?w c) a = Some (get_db_path st a, get_collection_name a)
      \<and> clients (?w c) a \<noteq> None" for c
    using b h cl by simp
  show ?thesis
  proof (cases "add_fails fl \<or> (\<exists>ms. meta = Some ms \<and> length ms \<noteq> length docs)")
    case True
    show ?thesis
      using ad True w [of "[]"] props [of "[]"]
      by (intro exI [of _ "?w []"]) (auto simp: Let_def c1 coll_add_empty [OF ne])
  next
    case False
    show ?thesis
      using ad False w [of "new_documents md5 a docs meta"] props [of "new_documents md5 a docs meta"]
      by (intro exI [of _ "?w (new_documents md5 a docs meta)"])
         (auto simp: Let_def c1 coll_add_empty [OF ne])
  qed
qed

lemma tenant_ok_new_store: "tenant_ok (new_store base []) a"
  by (simp add: tenant_ok_def new_store_def tenant_docs_def read_collection_def list_all_iff)


section \<open>Replacing when the deletion fails, and batches spelled out\<close>




lemma first_replace:
  assumes "docs \<noteq> []"
  shows "fst (add_documents md5 no_faults (new_store base []) a docs None True) = None
       \<and> tenant_docs (snd (add_documents md5 no_faults (new_store base []) a docs None True)) a
           = Some (new_documents md5 a docs None)"
proof -
  have f: "\<not> get_fails no_faults" "\<not> delete_fails no_faults" "\<not> add_fails no_faults"
    by (simp_all add: no_faults_def)
  have t: "tenant_ok (new_store base []) a"
    by (rule tenant_ok_new_store)
  from replace_outcome [OF t assms f(1,2), of md5 None] f(3)
  show ?thesis by auto
qed



lemma str_int_2: "str_int 2 = ''2''"
  by (simp add: str_int_def nat_digits.simps digit_char_def)




lemma tenant2_store_docs:
  "tenant_docs tenant2_store 2 = Some (new_documents toy_digest 2 [''beta''] None)"
  unfolding tenant2_store_def
  using first_replace [of "[''beta'']" toy_digest "''vector_db''" 2] by simp



section \<open>Working order is kept by \<open>add_documents\<close>\<close>

lemma tagged_filter: "tagged a c \<Longrightarrow> tagged a (filter P c)"
  by (simp add: tagged_def list_all_iff)

lemma tagged_append: "tagged a (c @ c') \<longleftrightarrow> tagged a c \<and> tagged a c'"
  by (simp add: tagged_def)

lemma tagged_clear_existing: "tagged a c \<Longrightarrow> tagged a (clear_existing fl a c)"
  by (simp add: clear_existing_def Let_def coll_delete_def tagged_filter)

lemma tagged_coll_add:
  assumes "tagged a c"
    "coll_add (document_ids a (length docs)) docs (map (embedding_of md5) docs)
        (document_metadata a (length docs) meta) c = Inr c2"
  shows "tagged a c2"
proof -
  from assms(2) have "c2 = c @ filter (\<lambda>d. doc_id d \<notin> doc_id ` set c) (new_documents md5 a docs meta)"
    by (simp add: coll_add_def new_documents_def split: if_splits)
  then show ?thesis
    using assms(1) by (simp add: tagged_append tagged_filter tagged_new_documents)
qed

lemma tenant_ok_add_documents:
  assumes t: "tenant_ok st a"
  shows "tenant_ok (snd (add_documents md5 fl st a docs meta repl)) a"
proof (cases "docs = []")
  case True
  then show ?thesis using t by (simp add: add_documents_def)
next
  case False
  let ?c0 = "case tenant_docs st a of None \<Rightarrow> [] | Some c \<Rightarrow> c"
  let ?c1 = "if repl then clear_existing fl a ?c0 else ?c0"
  let ?h = "(get_db_path st a, get_collection_name a)"
  from add_documents_outcome [OF t False, of repl fl md5 meta] obtain st1 where
    b: "base_db_dir st1 = base_db_dir st"
    and h: "collections st1 a = Some ?h"
    and cl: "clients st1 a \<noteq> None"
    and td: "tenant_docs st1 a \<noteq> None"
    and ad: "add_documents md5 fl st a docs meta repl =
              (if add_fails fl
               then (Some (ChromaError ''add failed''), st1\<lparr>disk := write_collection (disk st1) ?h ?c1\<rparr>)
               else case coll_add (document_ids a (length docs)) docs (map (embedding_of md5) docs)
                           (document_metadata a (length docs) meta) ?c1 of
                      Inl e \<Rightarrow> (Some e, st1\<lparr>disk := write_collection (disk st1) ?h ?c1\<rparr>)
                    | Inr c2 \<Rightarrow> (None, st1\<lparr>disk := write_collection (disk st1) ?h c2\<rparr>))"
    by (auto simp: Let_def)
  have t0: "tagged a ?c0"
    using t by (auto simp: tenant_ok_def tagged_def split: option.splits)
  then have t1: "tagged a ?c1"
    by (simp add: tagged_clear_existing)
  have p: "get_db_path st1 a = get_db_path st a"
    by (rule get_db_path_base [OF b])
  have tdw: "tenant_docs (st1\<lparr>disk := write_collection (disk st1) ?h c\<rparr>) a = Some c" for c
    using tenant_docs_written [OF td, of c] unfolding p .
  have gp: "get_db_path (st1\<lparr>disk := fs\<rparr>) a = get_db_path st a" for fs
    by (simp add: get_db_path_def b)
  have w: "tagged a c \<Longrightarrow> tenant_ok (st1\<lparr>disk := write_collection (disk st1) ?h c\<rparr>) a" for c
    unfolding tenant_ok_def tdw gp using h cl by auto
  show ?thesis
  proof (cases "add_fails fl")
    case True
    then show ?thesis using ad w [OF t1] by simp
  next
    case nf: False
    show ?thesis
    proof (cases "coll_add (document_ids a (length docs)) docs (map (embedding_of md5) docs)
                           (document_metadata a (length docs) meta) ?c1")
      case (Inl e)
      then show ?thesis using ad nf w [OF t1] by simp
    next
      case (Inr c2)
      from tagged_coll_add [OF t1 Inr] have "tagged a c2" .
      then show ?thesis using ad nf Inr w by simp
    qed
  qed
qed

section \<open>The reclaimer, unfolded\<close>

lemma all_less_5: "(\<forall>k<5. P k) \<longleftrightarrow> P 0 \<and> P (Suc 0) \<and> P 2 \<and> P 3 \<and> P (4::nat)"
proof
  assume "\<forall>k<5. P k"
  then show "P 0 \<and> P (Suc 0) \<and> P 2 \<and> P 3 \<and> P 4" by simp
next
  assume a: "P 0 \<and> P (Suc 0) \<and> P 2 \<and> P 3 \<and> P 4"
  show "\<forall>k<5. P k"
  proof (intro allI impI)
    fix k :: nat assume "k < 5"
    then have "k = 0 \<or> k = Suc 0 \<or> k = 2 \<or> k = 3 \<or> k = 4" by arith
    with a show "P k" by auto
  qed
qed

lemma force_remove_unfold:
  "force_remove_directory env fs path =
     (if rmtree_ok env 0 then (Inr (rmtree fs path), [Rmtree True])
      else if rmtree_ok env (Suc 0) then (Inr (rmtree fs path), [Rmtree False, Rmtree True])
      else if rmtree_ok env 2 then (Inr (rmtree fs path), [Rmtree False, Rmtree False, Rmtree True])
      else if rmtree_ok env 3 then
        (Inr (rmtree fs path), [Rmtree False, Rmtree False, Rmtree False, Rmtree True])
      else if rmtree_ok env 4 then
        (Inr (rmtree fs path),
         [Rmtree False, Rmtree False, Rmtree False, Rmtree False, Rmtree True])
      else if rename_ok env then
        (Inr (rename fs path (path @ ''_backup_'' @ str_int (now env))),
         [Rmtree False, Rmtree False, Rmtree False, Rmtree False, Rmtree False,
          Rename (path @ ''_backup_'' @ str_int (now env)) True])
      else
        (Inl (OSError path),
         [Rmtree False, Rmtree False, Rmtree False, Rmtree False, Rmtree False,
          Rename (path @ ''_backup_'' @ str_int (now env)) False]))"
proof -
  have a3: "force_remove_attempts env path (Suc (Suc (Suc 0))) c f = (Inr f, [])" for c f
    by (subst force_remove_attempts.simps) (simp add: max_retries_def eval_nat_numeral)
  have a2: "force_remove_attempts env path (Suc (Suc 0)) (Suc (Suc (Suc (Suc 0)))) fs =
      (if rmtree_ok env (Suc (Suc (Suc (Suc 0)))) then (Inr (rmtree fs path), [Rmtree True])
       else if rename_ok env then
         (Inr (rename fs path (path @ ''_backup_'' @ str_int (now env))),
          [Rmtree False, Rename (path @ ''_backup_'' @ str_int (now env)) True])
       else (Inl (OSError path),
             [Rmtree False, Rename (path @ ''_backup_'' @ str_int (now env)) False]))"
    by (subst force_remove_attempts.simps) (simp add: max_retries_def a3 Let_def eval_nat_numeral)
  have a1: "force_remove_attempts env path (Suc 0) (Suc (Suc 0)) fs =
      (if rmtree_ok env (Suc (Suc 0)) then (Inr (rmtree fs path), [Rmtree True])
       else if rmtree_ok env (Suc (Suc (Suc 0))) then
         (Inr (rmtree fs path), [Rmtree False, Rmtree True])
       else (case force_remove_attempts env path (Suc (Suc 0)) (Suc (Suc (Suc (Suc 0)))) fs of
               (r, evs) \<Rightarrow> (r, Rmtree False # Rmtree False # evs)))"
    by (subst force_remove_attempts.simps) (simp add: max_retries_def Let_def eval_nat_numeral)
  have a0: "force_remove_attempts env path 0 0 fs =
      (if rmtree_ok env 0 then (Inr (rmtree fs path), [Rmtree True])
       else if rmtree_ok env (Suc 0) then (Inr (rmtree fs path), [Rmtree False, Rmtree True])
       else (case force_remove_attempts env path (Suc 0) (Suc (Suc 0)) fs of
               (r, evs) \<Rightarrow> (r, Rmtree False # Rmtree False # evs)))"
    by (subst force_remove_attempts.simps) (simp add: max_retries_def Let_def eval_nat_numeral)
  show ?thesis
    by (simp add: force_remove_directory_def a0 a1 a2 eval_nat_numeral)
qed

lemma str_now_locked: "str_int (now locked_env) = ''1700000000''"
  by (simp add: locked_env_def str_int_def nat_digits.simps digit_char_def)

lemma rename_one_tenant:
  "rename one_tenant_fs ''vector_db/codebase_5'' ''vector_db/codebase_5_backup_1700000000''
     = relocated_fs"
  by (simp add: rename_def one_tenant_fs_def relocated_fs_def startswith_def)

lemma force_remove_directory_stuck:
  "fst (force_remove_directory stuck_env fs path) = Inl (OSError path)"
  by (simp add: force_remove_unfold stuck_env_def)

lemma cache_ok_delete_codebase: "cache_ok st \<Longrightarrow> cache_ok (snd (delete_codebase env st a))"
  by (auto simp: delete_codebase_def Let_def cache_ok_def get_db_path_def split: sum.splits)

section \<open>Ingest: the two modes on a tree without source files\<close>

lemma process_repository_not_empty: "process_repository name tree n_items \<noteq> []"
  by (simp add: process_repository_def Let_def)

lemma process_repository_no_sources:
  "get_source_files tree = [] \<Longrightarrow>
   process_repository name tree n_items = [temp_placeholder name n_items]"
  by (simp add: process_repository_def)

lemma process_codebase_no_sources:
  "get_source_files tree = [] \<Longrightarrow> process_codebase md5 fl st codebase_id tree = (None, st)"
  by (simp add: process_codebase_def)

section \<open>The splitter: stepping, degenerate configurations, short inputs\<close>

text \<open>
  Claim C7, as amended. \<open>chunk_code\<close> is the stepping algorithm of the specification:
  it splits the text into lines, advances the start index by 40 - 10 = 30 lines per
  step, joins up to 40 lines per step, drops a window that is blank while still
  advancing, and stops when the start index reaches the line count. Every chunk has at
  most 40 lines. For a 100-line input the windows start at lines 0, 30, 60 and 90; when
  none of them is blank, the chunks are exactly these four windows in order (ordinals
  0 to 3 are their list positions) and the last 10 lines of each of the first three
  are the first 10 lines of its successor.
\<close>

theorem chunk_code_stepping:
  "chunk_code txt = Inr (spec_split 40 10 txt)
   \<and> (\<forall>c\<in>set (spec_split 40 10 txt). length (split_lines c) \<le> 40)
   \<and> (length (split_lines txt) = 100
        \<and> (\<forall>k\<in>set [0..<4]. strip (window_text (split_lines txt) (30 * k)) \<noteq> [])
      \<longrightarrow> chunk_code txt = Inr (map (\<lambda>k. window_text (split_lines txt) (30 * k)) [0..<4])
          \<and> (\<forall>k<3. drop 30 (split_lines (window_text (split_lines txt) (30 * k)))
                       = take 10 (split_lines (window_text (split_lines txt) (30 * Suc k)))
                   \<and> length (drop 30 (split_lines (window_text (split_lines txt) (30 * k)))) = 10))"
proof (intro conjI impI ballI)
  show "chunk_code txt = Inr (spec_split 40 10 txt)"
    by (rule chunk_code_scan)
next
  fix c assume "c \<in> set (spec_split 40 10 txt)"
  then show "length (split_lines c) \<le> 40"
    unfolding spec_split_def
    by (intro spec_scan_lines [of "split_lines txt"]) (simp_all add: split_lines_no_newline)
next
  assume h: "length (split_lines txt) = 100
        \<and> (\<forall>k\<in>set [0..<4]. strip (window_text (split_lines txt) (30 * k)) \<noteq> [])"
  then have "spec_scan 40 10 (split_lines txt) 0
      = map (\<lambda>k. window_text (split_lines txt) (30 * k)) [0..<4]"
    by (simp add: spec_scan_100 upt_rec)
  then show "chunk_code txt = Inr (map (\<lambda>k. window_text (split_lines txt) (30 * k)) [0..<4])"
    by (simp add: chunk_code_scan spec_split_def)
  from h show "\<forall>k<3. drop 30 (split_lines (window_text (split_lines txt) (30 * k)))
                       = take 10 (split_lines (window_text (split_lines txt) (30 * Suc k)))
                   \<and> length (drop 30 (split_lines (window_text (split_lines txt) (30 * k)))) = 10"
    using window_overlap_100 by blast
qed

theorem chunk_code_stepping_witness:
  "length (split_lines hundred_lines) = 100
   \<and> chunk_code hundred_lines
       = Inr (map (\<lambda>k. window_text (split_lines hundred_lines) (30 * k)) [0..<4])"
proof -
  have h1: "length (split_lines hundred_lines) = 100"
    by code_simp
  have h2: "\<forall>k\<in>set [0..<4]. strip (window_text (split_lines hundred_lines) (30 * k)) \<noteq> []"
    by code_simp
  from chunk_code_stepping [of hundred_lines] h1 h2 show ?thesis
    by blast
qed

text \<open>
  Claim C7 as stated fails on a 100-line input with a blank window: lines 30 to 69 of
  \<open>gap_text\<close> are blank, the window at line 30 is dropped, and the first two chunks
  that are emitted (lines 0 to 39 and lines 60 to 99) have no line in common.
\<close>

theorem chunk_code_overlap_counterexample:
  "length (split_lines gap_text) = 100
   \<and> chunk_code gap_text =
       Inr [join_lines (replicate 30 ''a'' @ replicate 10 '' ''),
            join_lines (replicate 10 [] @ replicate 30 ''b''),
            join_lines (replicate 10 ''b'')]
   \<and> set (split_lines (join_lines (replicate 30 ''a'' @ replicate 10 '' '')))
       \<inter> set (split_lines (join_lines (replicate 10 [] @ replicate 30 ''b''))) = {}"
  by code_simp

text \<open>
  Claim C8, as amended. With \<open>overlap \<ge> window\<close> the splitter terminates and emits no
  chunk: when the two are equal the zero step makes \<open>range\<close> raise \<open>ValueError\<close>
  before any window is read, and when the overlap is larger the negative step makes the
  range empty, so the result is the empty list and nothing is raised.
\<close>

theorem chunk_code_degenerate_config:
  "w \<le> ov \<Longrightarrow> chunk_code_cfg w ov txt =
     (if ov = w then Inl (ValueError ''range() arg 3 must not be zero'') else Inr [])"
proof (cases "ov = w")
  case True
  then show ?thesis by (simp add: chunk_code_cfg_def py_range_def Let_def)
next
  case False
  assume "w \<le> ov"
  with False have st: "0 < ov - w" by simp
  have eq: "- int (length (split_lines txt)) - (w - ov) - 1
      = 0 - int (length (split_lines txt)) + (ov - w) - 1" by simp
  have "nat ((- int (length (split_lines txt)) - (w - ov) - 1) div (ov - w)) = 0"
    unfolding eq using st by (intro range_idxs_empty) auto
  then show ?thesis
    using False st by (simp add: chunk_code_cfg_def py_range_def Let_def)
qed

theorem chunk_code_degenerate_config_witness:
  "(10::int) \<le> 10
   \<and> chunk_code_cfg 10 10 ''a'' = Inl (ValueError ''range() arg 3 must not be zero'')"
  using chunk_code_degenerate_config [of 10 10 "''a''"] by simp

text \<open>
  Claim C8 as stated fails for an overlap larger than the window: no error is raised,
  the call returns an empty chunk list.
\<close>

theorem chunk_code_no_config_error_counterexample:
  "(10::int) \<le> 20 \<and> chunk_code_cfg 10 20 ''a'' = Inr []"
  by code_simp

text \<open>
  Claim C9, as amended. For a text of fewer than 40 lines the first window is the whole
  text, emitted when it is not blank. The loop runs a second time when the text has more
  than 30 lines: the lines from line 30 on are then emitted as a further chunk unless
  they are blank. So a text of at most 30 lines yields the whole text as its only chunk,
  or no chunk when it is blank.
\<close>

theorem chunk_code_short_input:
  assumes "length (split_lines txt) < 40"
  shows "chunk_code txt =
     Inr ((if strip txt \<noteq> [] then [txt] else []) @
          (if 30 < length (split_lines txt)
               \<and> strip (join_lines (drop 30 (split_lines txt))) \<noteq> []
           then [join_lines (drop 30 (split_lines txt))] else []))"
proof -
  let ?ls = "split_lines txt"
  have t: "take 40 ?ls = ?ls" using assms by simp
  have l0: "0 < length ?ls" by simp
  have s60: "spec_scan 40 10 ?ls 60 = []"
    using assms by (subst spec_scan.simps) simp
  have s30: "spec_scan 40 10 ?ls 30 =
     (if 30 < length ?ls \<and> strip (join_lines (drop 30 ?ls)) \<noteq> []
          then [join_lines (drop 30 ?ls)] else [])"
    using assms by (subst spec_scan.simps) (simp add: s60 Let_def)
  have s0: "spec_scan 40 10 ?ls 0 = (if strip txt \<noteq> [] then [txt] else []) @ spec_scan 40 10 ?ls 30"
    using l0 by (subst spec_scan.simps) (simp add: t Let_def)
  show ?thesis
    by (simp only: chunk_code_scan spec_split_def s0 s30)
qed

theorem chunk_code_short_input_witness:
  "length (split_lines ''ab'') < 40 \<and> chunk_code ''ab'' = Inr [''ab'']"
proof -
  have h: "length (split_lines ''ab'') < 40" by code_simp
  have s: "strip ''ab'' \<noteq> []" by code_simp
  have n: "\<not> 30 < length (split_lines ''ab'')" by code_simp
  show ?thesis
    using chunk_code_short_input [OF h] h s n by simp
qed

text \<open>
  Claim C9 as stated fails on a text of 31 non-blank lines: it has fewer than 40 lines
  and yields two chunks, the whole text and its last line.
\<close>

theorem chunk_code_short_input_counterexample:
  "length (split_lines short_text) < 40
   \<and> strip short_text \<noteq> []
   \<and> chunk_code short_text = Inr [short_text, ''a'']"
  by code_simp

section \<open>The fallback embedding\<close>

text \<open>
  Claim C4, as amended. For every input string that has a UTF-8 encoding (it holds no
  surrogate code point) \<open>get_embedding\<close> returns, without raising, a vector of exactly
  16 floats, each in [-1, 1]: the digest bytes \<open>v\<close> of the UTF-8 bytes of the text, each
  mapped to \<open>(v - 127.5) / 127.5\<close> in float arithmetic (the binary64 number nearest to
  that quotient), padded with 0.0 when the digest has fewer than 16 bytes and truncated
  when it has more; for a 128-bit digest these are the 16 mapped digest bytes. The
  result is a function of the text alone. For a string that holds a surrogate code point
  \<open>text.encode()\<close> raises \<open>UnicodeEncodeError\<close> and no vector is returned.
\<close>

theorem get_embedding_shape:
  "(list_ex is_surrogate text \<longrightarrow> get_embedding md5 text = Inl UnicodeEncodeError)
   \<and> (\<not> list_ex is_surrogate text \<longrightarrow>
        get_embedding md5 text
          = Inr (take 16 (map byte_coord (md5 (concat (map utf8_encode_cp text)))
                           @ replicate 16 0))
        \<and> length (take 16 (map byte_coord (md5 (concat (map utf8_encode_cp text)))
                             @ replicate 16 0)) = 16
        \<and> list_all (\<lambda>x. - 1 \<le> x \<and> x \<le> 1)
             (take 16 (map byte_coord (md5 (concat (map utf8_encode_cp text)))
                        @ replicate 16 0))
        \<and> (length (md5 (concat (map utf8_encode_cp text))) = 16 \<longrightarrow>
             get_embedding md5 text
               = Inr (map byte_coord (md5 (concat (map utf8_encode_cp text))))))
   \<and> (\<forall>b. byte_coord b = round_double ((of_int (int (unat b)) - 127.5) / 127.5))"
proof -
  let ?v = "take 16 (map byte_coord (md5 (concat (map utf8_encode_cp text))) @ replicate 16 0)"
  have r: "list_all (\<lambda>x. - 1 \<le> x \<and> x \<le> 1) ?v"
    unfolding list_all_iff
    using byte_coord_range by (auto dest!: in_set_takeD)
  have bad: "get_embedding md5 text = Inl UnicodeEncodeError" if "list_ex is_surrogate text"
    using that by (intro get_embedding_unencodable) (simp add: utf8_encode_def)
  have good: "get_embedding md5 text = Inr ?v" if "\<not> list_ex is_surrogate text"
    using that by (intro get_embedding_encoded) (simp add: utf8_encode_def)
  have len: "length ?v = 16"
    by (simp add: min_def)
  have full: "get_embedding md5 text
      = Inr (map byte_coord (md5 (concat (map utf8_encode_cp text))))"
    if "\<not> list_ex is_surrogate text" "length (md5 (concat (map utf8_encode_cp text))) = 16"
    using good [OF that(1)] that(2) by simp
  show ?thesis
    using r bad good len full byte_coord_nearest by blast
qed

theorem get_embedding_shape_witness:
  "\<not> list_ex is_surrogate mixed_str
   \<and> utf8_encode mixed_str = Inr [97, 195, 169, 226, 130, 172, 240, 159, 152, 128]
   \<and> length (toy_digest [97, 195, 169, 226, 130, 172, 240, 159, 152, 128]) = 16
   \<and> get_embedding toy_digest mixed_str
       = Inr (map byte_coord (toy_digest [97, 195, 169, 226, 130, 172, 240, 159, 152, 128]))
   \<and> toy_digest [97, 195, 169, 226, 130, 172, 240, 159, 152, 128]
       = [97, 195, 169, 226, 130, 172, 240, 159, 152, 128, 0, 0, 0, 0, 0, 0]
   \<and> byte_coord 97 = - (8618653404536479 / 36028797018963968)
   \<and> byte_coord 0 = - 1"
proof -
  have s: "\<not> list_ex is_surrogate mixed_str"
    by (simp add: mixed_str_def is_surrogate_def)
  have c: "concat (map utf8_encode_cp mixed_str)
      = [97, 195, 169, 226, 130, 172, 240, 159, 152, 128]"
    by (simp add: mixed_str_def utf8_encode_cp_def)
  have u: "utf8_encode mixed_str = Inr [97, 195, 169, 226, 130, 172, 240, 159, 152, 128]"
    using s c by (simp add: utf8_encode_def)
  have h: "length (toy_digest [97, 195, 169, 226, 130, 172, 240, 159, 152, 128]) = 16"
    by (simp add: toy_digest_def)
  have d: "toy_digest [97, 195, 169, 226, 130, 172, 240, 159, 152, 128]
      = [97, 195, 169, 226, 130, 172, 240, 159, 152, 128, 0, 0, 0, 0, 0, 0]"
    by (simp add: toy_digest_def eval_nat_numeral)
  have z: "byte_coord 0 = - 1"
    by (simp add: byte_coord_nearest round_double_minus_one)
  from get_embedding_shape [of mixed_str toy_digest] s u h
  have "get_embedding toy_digest mixed_str
       = Inr (map byte_coord (toy_digest [97, 195, 169, 226, 130, 172, 240, 159, 152, 128]))"
    unfolding c by simp
  with s u h d z byte_coord_97 show ?thesis by simp
qed

text \<open>
  Claim C4 as stated fails on the one-character string \<open>"\ud800"\<close>, a lone surrogate
  (such strings come out of \<open>json.load\<close>): encoding it raises and no vector is
  returned.
\<close>

theorem get_embedding_surrogate_counterexample:
  "get_embedding toy_digest [55296] = Inl UnicodeEncodeError"
  by (simp add: get_embedding_def utf8_encode_def is_surrogate_def)

section \<open>The store: isolation and replacement\<close>

text \<open>
  Claim C1. For two distinct tenant ids \<open>a\<close> and \<open>b\<close>, adding documents for \<open>a\<close>
  (whatever the batch, the flag and the outcome) leaves every query against \<open>b\<close> and
  the documents of \<open>b\<close> as they were, and changes no path that existed other than the
  directory of \<open>a\<close>: the chunks of a tenant live in its own collection only. The
  cached handles stay the tenants' own, so this holds along any sequence of calls.
\<close>

theorem tenant_isolation:
  assumes ne: "a \<noteq> b" and ok: "cache_ok st"
  shows "query_codebase md5 (snd (add_documents md5 fl st a docs meta repl)) b q n
           = query_codebase md5 st b q n
       \<and> tenant_docs (snd (add_documents md5 fl st a docs meta repl)) b = tenant_docs st b
       \<and> (\<forall>p. p \<noteq> get_db_path st a \<and> fs_exists (disk st) p \<longrightarrow>
              map_of (disk (snd (add_documents md5 fl st a docs meta repl))) p = map_of (disk st) p)
       \<and> cache_ok (snd (add_documents md5 fl st a docs meta repl))"
proof -
  let ?st' = "snd (add_documents md5 fl st a docs meta repl)"
  note f = add_documents_frame [OF ok, of md5 fl a docs meta repl]
  from f have base: "base_db_dir ?st' = base_db_dir st"
    and coll: "collections ?st' b = collections st b"
    and fr: "fs_frame (get_db_path st a) (disk st) (disk ?st')"
    and ok': "cache_ok ?st'"
    using ne by auto
  have pne: "get_db_path st b \<noteq> get_db_path st a"
    using ne get_db_path_inj by blast
  have td: "tenant_docs ?st' b = tenant_docs st b"
    unfolding tenant_docs_def get_db_path_base [OF base]
    using fr pne by (intro read_collection_frame) simp_all
  have q: "query_codebase md5 ?st' b q n = query_codebase md5 st b q n"
  proof (cases "collections st b")
    case None
    then show ?thesis using coll by (simp add: query_codebase_def)
  next
    case (Some h)
    with ok have h: "h = (get_db_path st b, get_collection_name b)"
      unfolding cache_ok_def by blast
    have "read_collection (disk ?st') h = read_collection (disk st) h"
      using fr pne h by (intro read_collection_frame) simp_all
    then show ?thesis using coll Some by (simp add: query_codebase_def split: sum.splits)
  qed
  have ex: "map_of (disk ?st') p = map_of (disk st) p"
    if "p \<noteq> get_db_path st a" "fs_exists (disk st) p" for p
    using fr that by (auto simp: fs_frame_def fs_exists_def)
  show ?thesis using q td ex ok' by blast
qed

theorem tenant_isolation_witness:
  "(1::int) \<noteq> 2
   \<and> cache_ok tenant2_store
   \<and> query_codebase toy_digest
         (snd (add_documents toy_digest no_faults tenant2_store 1 [''alpha''] None True)) 2 ''b'' 3
       = query_codebase toy_digest tenant2_store 2 ''b'' 3
   \<and> map_option (map doc_text) (tenant_docs tenant2_store 2) = Some [''beta'']"
proof -
  have c: "cache_ok tenant2_store"
    unfolding tenant2_store_def
    using add_documents_frame [OF cache_ok_new_store] by blast
  have n: "(1::int) \<noteq> 2" by simp
  have d: "map_option (map doc_text) (tenant_docs tenant2_store 2) = Some [''beta'']"
    by (simp add: tenant2_store_docs new_documents_text)
  from tenant_isolation [OF n c, of toy_digest no_faults "[''alpha'']" None True "''b''" 3] c d
  show ?thesis by simp
qed






section \<open>Teardown\<close>

text \<open>
  Claim C5. One run of \<open>_force_remove_directory\<close> calls \<open>shutil.rmtree\<close> at most 5
  times (its three loop iterations make two, two and one call) and \<open>os.rename\<close> at most
  once. When one of the removals succeeds the directory is gone and nothing is renamed.
  When all five fail and the rename succeeds, the directory has moved to
  \<open>path_backup_<time>\<close> and the call returns without raising. It raises exactly when
  all five removals and the rename fail, and the exception then names the path.
\<close>

theorem force_remove_directory_bounded:
  "(case force_remove_directory env fs path of
      (r, evs) \<Rightarrow>
        length (filter is_rmtree evs) \<le> 5
        \<and> length (filter is_rename evs) \<le> 1
        \<and> ((\<forall>k<5. \<not> rmtree_ok env k) \<and> rename_ok env \<longrightarrow>
              r = Inr (rename fs path (path @ ''_backup_'' @ str_int (now env)))
              \<and> evs = replicate 5 (Rmtree False)
                        @ [Rename (path @ ''_backup_'' @ str_int (now env)) True])
        \<and> ((\<exists>k<5. rmtree_ok env k) \<longrightarrow> r = Inr (rmtree fs path) \<and> filter is_rename evs = [])
        \<and> (r = Inl (OSError path) \<longleftrightarrow> (\<forall>k<5. \<not> rmtree_ok env k) \<and> \<not> rename_ok env)
        \<and> (\<forall>e. r = Inl e \<longrightarrow> e = OSError path))"
proof -
  let ?ok = "rmtree_ok env"
  have A: "(\<forall>k<5. \<not> ?ok k) \<longleftrightarrow>
      \<not> ?ok 0 \<and> \<not> ?ok (Suc 0) \<and> \<not> ?ok 2 \<and> \<not> ?ok 3 \<and> \<not> ?ok 4"
    by (rule all_less_5)
  have E: "(\<exists>k<5. ?ok k) \<longleftrightarrow> ?ok 0 \<or> ?ok (Suc 0) \<or> ?ok 2 \<or> ?ok 3 \<or> ?ok 4"
    using A by blast
  have R: "replicate 5 (Rmtree False)
      = [Rmtree False, Rmtree False, Rmtree False, Rmtree False, Rmtree False]"
    by (simp add: eval_nat_numeral)
  show ?thesis
    unfolding force_remove_unfold A E R by auto
qed

theorem force_remove_directory_bounded_witness:
  "rename_ok locked_env
   \<and> fst (force_remove_directory locked_env one_tenant_fs ''vector_db/codebase_5'')
       = Inr (rename one_tenant_fs ''vector_db/codebase_5''
                (''vector_db/codebase_5'' @ ''_backup_'' @ str_int (now locked_env)))"
proof -
  have h: "\<forall>k<5. \<not> rmtree_ok locked_env k" by (simp add: locked_env_def)
  have r: "rename_ok locked_env" by (simp add: locked_env_def)
  from force_remove_directory_bounded [of locked_env one_tenant_fs "''vector_db/codebase_5''"] h r
  show ?thesis by (simp add: case_prod_beta)
qed

text \<open>
  Claim C6 fails on the relocation path. Tenant 5 has its directory
  \<open>vector_db/codebase_5\<close>; every removal fails and the rename succeeds at time
  1700000000. \<open>delete_codebase\<close> returns without raising and the directory is no longer
  at its path, but the backup \<open>vector_db/codebase_5_backup_1700000000\<close> lies in the base
  directory, its name starts with \<open>codebase_\<close> and its second piece is \<open>5\<close>: so
  \<open>list_codebases\<close> still lists tenant 5.
\<close>

theorem delete_codebase_relocated_still_listed:
  "list_codebases (new_store ''vector_db'' one_tenant_fs) = Inr [5]
   \<and> delete_codebase locked_env (new_store ''vector_db'' one_tenant_fs) 5
       = (None, new_store ''vector_db'' relocated_fs)
   \<and> \<not> fs_exists relocated_fs ''vector_db/codebase_5''
   \<and> list_codebases (new_store ''vector_db'' relocated_fs) = Inr [5]"
proof -
  have p: "get_db_path (new_store ''vector_db'' one_tenant_fs) 5 = ''vector_db/codebase_5''"
    by code_simp
  have e: "fs_exists one_tenant_fs ''vector_db/codebase_5''"
    by code_simp
  have l: "\<not> rmtree_ok locked_env k" "rename_ok locked_env" for k
    by (simp_all add: locked_env_def)
  have d: "delete_codebase locked_env (new_store ''vector_db'' one_tenant_fs) 5
       = (None, new_store ''vector_db'' relocated_fs)"
    by (simp add: delete_codebase_def Let_def p force_remove_unfold l str_now_locked)
       (simp add: new_store_def e rename_one_tenant)
  have b: "list_codebases (new_store ''vector_db'' one_tenant_fs) = Inr [5]"
    by code_simp
  have g: "\<not> fs_exists relocated_fs ''vector_db/codebase_5''"
    by code_simp
  have a: "list_codebases (new_store ''vector_db'' relocated_fs) = Inr [5]"
    by code_simp
  show ?thesis using b d g a by simp
qed

section \<open>Ingest of a repository without source files\<close>

text \<open>
  Claim C10 fails in the persistent mode. On a working tree without a file of a
  supported type \<open>get_source_files\<close> yields nothing and \<open>_process_codebase\<close> returns
  at once: nothing is stored and the tenant has no document, while the temporary mode
  yields its one placeholder chunk on the same tree.
\<close>

theorem process_codebase_no_placeholder:
  "get_source_files image_only_tree = []
   \<and> process_codebase toy_digest no_faults (new_store ''vector_db'' []) 7 image_only_tree
       = (None, new_store ''vector_db'' [])
   \<and> read_collection (disk (new_store ''vector_db'' []))
         (get_db_path (new_store ''vector_db'' []) 7, get_collection_name 7) = None
   \<and> process_repository ''pictures'' image_only_tree 1 = [temp_placeholder ''pictures'' 1]"
proof -
  have g: "get_source_files image_only_tree = []"
    by code_simp
  have p: "process_codebase toy_digest no_faults (new_store ''vector_db'' []) 7 image_only_tree
       = (None, new_store ''vector_db'' [])"
    by (simp add: process_codebase_def g)
  have r: "read_collection (disk (new_store ''vector_db'' []))
         (get_db_path (new_store ''vector_db'' []) 7, get_collection_name 7) = None"
    by (simp add: read_collection_def new_store_def)
  have t: "process_repository ''pictures'' image_only_tree 1 = [temp_placeholder ''pictures'' 1]"
    by (simp add: process_repository_def g)
  show ?thesis using g p r t by simp
qed

end
